theory Spec2Isabelle
  imports Main "HOL-Library.List_Lexorder" "HOL-Library.Char_ord"
begin

text \<open>
  The caching subsystem of the Express API: the derivation of cache keys
  (\<open>cache-key.util.ts\<close>), the Redis-backed \<open>CacheService\<close> (\<open>cache.service.ts\<close>) with its
  key prefix, and the cache-aside user repository (\<open>user.repository.ts\<close>) that invalidates
  keys after a mutation of the store of record.
\<close>

section \<open>JavaScript values used by the cache subsystem\<close>

text \<open>
  A JavaScript number is an integer, \<open>NaN\<close>, one of the two infinities or the negative
  zero. Finite fractions are left out: in a truthiness test, in \<open>toString()\<close> and in
  \<open>JSON.stringify\<close> a fraction behaves as a non-zero integer does (it is truthy, its text
  has no colon and is the text of no other number, and it is read back as it was written).
\<close>

datatype jsnum = IntNum int | NaN | PosInfinity | NegInfinity | NegZero

text \<open>Truthiness of a number: \<open>0\<close>, \<open>-0\<close> and \<open>NaN\<close> are falsy.\<close>

fun truthy_jsnum :: "jsnum \<Rightarrow> bool" where
  "truthy_jsnum (IntNum i) = (i \<noteq> 0)"
| "truthy_jsnum NaN = False"
| "truthy_jsnum NegZero = False"
| "truthy_jsnum PosInfinity = True"
| "truthy_jsnum NegInfinity = True"

text \<open>
  Filter values of a list key are primitive JavaScript values. (A filter value that is an
  array or an object enters the key through its \<open>String(value)\<close> only, as the string of
  that text does.)
\<close>

datatype jsprim = PUndefined | PNull | PBool bool | PNum jsnum | PStr string

definition digit_char :: "nat \<Rightarrow> char" where
  "digit_char d = ''0123456789'' ! d"

fun string_of_nat :: "nat \<Rightarrow> string" where
  "string_of_nat n =
     (if n < 10 then [digit_char n]
      else string_of_nat (n div 10) @ [digit_char (n mod 10)])"

declare string_of_nat.simps [simp del]

text \<open>
  \<open>Number.prototype.toString()\<close>. An integer is written with all its digits; JavaScript
  goes over to exponent notation from \<open>1e21\<close> on, where the text is still without a
  colon and still the text of that number alone.
\<close>

definition int_text :: "int \<Rightarrow> string" where
  "int_text i =
     (if i < 0 then CHR ''-'' # string_of_nat (nat (- i)) else string_of_nat (nat i))"

fun Number_toString :: "jsnum \<Rightarrow> string" where
  "Number_toString (IntNum i) = int_text i"
| "Number_toString NaN = ''NaN''"
| "Number_toString PosInfinity = ''Infinity''"
| "Number_toString NegInfinity = ''-Infinity''"
| "Number_toString NegZero = ''0''"

text \<open>\<open>String(v)\<close> on a primitive value.\<close>

fun String_of :: "jsprim \<Rightarrow> string" where
  "String_of PUndefined = ''undefined''"
| "String_of PNull = ''null''"
| "String_of (PBool b) = (if b then ''true'' else ''false'')"
| "String_of (PNum n) = Number_toString n"
| "String_of (PStr s) = s"

text \<open>\<open>Array.prototype.join(sep)\<close> on an array of strings.\<close>

fun join :: "string \<Rightarrow> string list \<Rightarrow> string" where
  "join sep [] = []"
| "join sep [x] = x"
| "join sep (x # y # ys) = x @ sep @ join sep (y # ys)"

section \<open>Key derivation (cache-key.util.ts)\<close>

text \<open>An id is \<open>string | number\<close>; a template literal inserts its text.\<close>

datatype entity_id = StrId string | NumId jsnum

fun id_text :: "entity_id \<Rightarrow> string" where
  "id_text (StrId s) = s"
| "id_text (NumId n) = Number_toString n"

record PaginationParams =
  page :: "jsnum option"
  limit :: "jsnum option"

text \<open>
  A filter object \<open>Record<string, any>\<close> is the list of its properties in insertion order;
  a JavaScript object holds one value per property name, so the names are distinct.
\<close>

type_synonym filters = "(string \<times> jsprim) list"

definition wf_object :: "filters \<Rightarrow> bool" where
  "wf_object f = distinct (map fst f)"

definition Object_keys :: "filters \<Rightarrow> string list" where
  "Object_keys f = map fst f"

text \<open>\<open>`${entityType}:${id}`\<close>\<close>

definition entityById :: "string \<Rightarrow> entity_id \<Rightarrow> string" where
  "entityById entityType i = entityType @ '':'' @ id_text i"

text \<open>\<open>`${entityType}:${field}:${value}`\<close>\<close>

definition entityByField :: "string \<Rightarrow> string \<Rightarrow> string \<Rightarrow> string" where
  "entityByField entityType field v = entityType @ '':'' @ field @ '':'' @ v"

text \<open>
  \<open>pagination?.page\<close> and \<open>pagination?.limit\<close> tested for truthiness: an absent
  pagination object, an absent member and a falsy number are all falsy.
\<close>

definition truthy_num :: "jsnum option \<Rightarrow> bool" where
  "truthy_num x = (case x of None \<Rightarrow> False | Some n \<Rightarrow> truthy_jsnum n)"

definition opt_page :: "PaginationParams option \<Rightarrow> jsnum option" where
  "opt_page pagination = (case pagination of None \<Rightarrow> None | Some p \<Rightarrow> page p)"

definition opt_limit :: "PaginationParams option \<Rightarrow> jsnum option" where
  "opt_limit pagination = (case pagination of None \<Rightarrow> None | Some p \<Rightarrow> limit p)"

definition num_text :: "jsnum option \<Rightarrow> string" where
  "num_text x = (case x of None \<Rightarrow> ''undefined'' | Some n \<Rightarrow> Number_toString n)"

definition push_pagination :: "PaginationParams option \<Rightarrow> string list \<Rightarrow> string list" where
  "push_pagination pagination parts =
     (let pg = opt_page pagination; lm = opt_limit pagination in
      if truthy_num pg \<and> truthy_num lm then
        parts @ [''page'', num_text pg, ''limit'', num_text lm]
      else if truthy_num pg \<or> truthy_num lm then
        (let parts1 = (if truthy_num pg then parts @ [''page'', num_text pg] else parts)
         in (if truthy_num lm then parts1 @ [''limit'', num_text lm] else parts1))
      else parts @ [''all''])"

text \<open>
  The loop \<open>for (const key of filterKeys)\<close>: a property whose value is neither
  \<open>undefined\<close> nor \<open>null\<close> pushes its name and \<open>String(value)\<close>.
\<close>

fun push_filters :: "filters \<Rightarrow> string list \<Rightarrow> string list \<Rightarrow> string list" where
  "push_filters f [] parts = parts"
| "push_filters f (k # ks) parts =
     push_filters f ks
       (case map_of f k of
          None \<Rightarrow> parts
        | Some v \<Rightarrow> if v \<noteq> PUndefined \<and> v \<noteq> PNull then parts @ [k, String_of v] else parts)"

definition entityList ::
  "string \<Rightarrow> PaginationParams option \<Rightarrow> filters option \<Rightarrow> string" where
  "entityList entityType pagination fs =
     (let parts = push_pagination pagination [entityType, ''list''];
          parts' = (case fs of
                      None \<Rightarrow> parts
                    | Some f \<Rightarrow>
                        if length (Object_keys f) > 0
                        then push_filters f (sort (Object_keys f)) parts
                        else parts)
      in join '':'' parts')"

text \<open>\<open>`${entityType}:${pattern}`\<close>, with the default pattern \<open>*\<close>.\<close>

definition entityPattern :: "string \<Rightarrow> string option \<Rightarrow> string" where
  "entityPattern entityType pattern =
     entityType @ '':'' @ (case pattern of None \<Rightarrow> ''*'' | Some p \<Rightarrow> p)"

text \<open>The legacy generators of \<open>CacheService\<close>.\<close>

definition generateUserKey :: "string \<Rightarrow> string" where
  "generateUserKey i = ''user:'' @ i"

definition generateUserByEmailKey :: "string \<Rightarrow> string" where
  "generateUserByEmailKey email = ''user:email:'' @ email"

definition generateUsersListKey :: "jsnum option \<Rightarrow> jsnum option \<Rightarrow> string" where
  "generateUsersListKey pg lm =
     (if truthy_num pg \<and> truthy_num lm
      then ''users:list:page:'' @ num_text pg @ '':limit:'' @ num_text lm
      else ''users:list:all'')"


section \<open>Values that are cached, and their JSON form\<close>

text \<open>
  Cached values are JavaScript values (\<open>value: any\<close>): \<open>null\<close>, booleans, numbers,
  strings, arrays and plain objects, and with them \<open>undefined\<close> and \<open>Date\<close>, which
  \<open>JSON.stringify\<close> does not keep. A \<open>Date\<close> carries the text its \<open>toISOString()\<close>
  returns; the \<open>created_at\<close> of a user row is one. Other objects (a \<open>Map\<close>, an instance
  of a class, a function) are not values of the model.
\<close>

datatype jsval =
    JUndefined
  | JNull
  | JBool bool
  | JNum jsnum
  | JStr string
  | JDate string
  | JArr "jsval list"
  | JObj "(string \<times> jsval) list"

text \<open>
  A thrown exception or a rejected promise is a value on the left of a sum.
\<close>

datatype exn = RedisError | TypeError | SyntaxError | DbError string

fun drop_undefined :: "(string \<times> jsval option) list \<Rightarrow> (string \<times> jsval) list" where
  "drop_undefined [] = []"
| "drop_undefined ((k, None) # ms) = drop_undefined ms"
| "drop_undefined ((k, Some j) # ms) = (k, j) # drop_undefined ms"

text \<open>
  \<open>toJSON v\<close> is the value that the text \<open>JSON.stringify(v)\<close> denotes, that is
  \<open>JSON.parse(JSON.stringify(v))\<close>; it is \<open>None\<close> where \<open>JSON.stringify\<close> returns
  \<open>undefined\<close> instead of a text. A date is written as its ISO string, \<open>NaN\<close> and the
  infinities as \<open>null\<close>, the negative zero as \<open>0\<close>, an \<open>undefined\<close> array element as
  \<open>null\<close>, and an \<open>undefined\<close> member is left out.
\<close>

fun number_toJSON :: "jsnum \<Rightarrow> jsval" where
  "number_toJSON (IntNum i) = JNum (IntNum i)"
| "number_toJSON NegZero = JNum (IntNum 0)"
| "number_toJSON NaN = JNull"
| "number_toJSON PosInfinity = JNull"
| "number_toJSON NegInfinity = JNull"

fun toJSON :: "jsval \<Rightarrow> jsval option" where
  "toJSON JUndefined = None"
| "toJSON JNull = Some JNull"
| "toJSON (JBool b) = Some (JBool b)"
| "toJSON (JNum n) = Some (number_toJSON n)"
| "toJSON (JStr s) = Some (JStr s)"
| "toJSON (JDate d) = Some (JStr d)"
| "toJSON (JArr xs) =
     Some (JArr (map (\<lambda>x. case toJSON x of None \<Rightarrow> JNull | Some j \<Rightarrow> j) xs))"
| "toJSON (JObj ms) =
     Some (JObj (drop_undefined (map (\<lambda>m. (fst m, toJSON (snd m))) ms)))"

text \<open>
  What a key of the backend holds is a string. A string written by \<open>JSON.stringify\<close> is
  kept as the value it denotes (\<open>JsonText\<close>); any other string is \<open>RawText\<close>, on which
  \<open>JSON.parse\<close> throws.
\<close>

datatype payload = JsonText jsval | RawText string

definition JSON_stringify :: "jsval \<Rightarrow> payload option" where
  "JSON_stringify v = map_option JsonText (toJSON v)"

fun JSON_parse :: "payload \<Rightarrow> exn + jsval" where
  "JSON_parse (JsonText j) = Inr j"
| "JSON_parse (RawText s) = Inl SyntaxError"

text \<open>Truthiness of a string read from the backend: only the empty string is falsy.\<close>

fun truthy_payload :: "payload \<Rightarrow> bool" where
  "truthy_payload (JsonText j) = True"
| "truthy_payload (RawText s) = (s \<noteq> [])"

section \<open>The backend: a Redis database behind the client\<close>

text \<open>
  An entry is a key, the stored string and its expiry in seconds (\<open>None\<close> for a key
  without expiry). While \<open>available\<close> is false every command of the client rejects.
\<close>

record redis =
  entries :: "(string \<times> payload \<times> int option) list"
  available :: bool

definition redis_lookup :: "redis \<Rightarrow> string \<Rightarrow> (payload \<times> int option) option" where
  "redis_lookup r k = map_of (entries r) k"

text \<open>
  Glob matching of \<open>KEYS\<close>: \<open>*\<close> matches any run of characters, \<open>?\<close> one character and a
  backslash makes the next pattern character literal. Bracket classes are not modelled: the
  patterns of this program have none, and what is proved about a pattern is proved for a
  key prefix without glob characters.
\<close>

fun glob :: "string \<Rightarrow> string \<Rightarrow> bool" where
  "glob [] s = (s = [])"
| "glob (p # ps) [] = (p = CHR ''*'' \<and> glob ps [])"
| "glob (p # ps) (c # cs) =
     (if p = CHR ''*'' then glob ps (c # cs) \<or> glob (p # ps) cs
      else if p = CHR ''?'' then glob ps cs
      else if p = CHR 0x5C then
        (case ps of [] \<Rightarrow> c = p \<and> cs = [] | q # qs \<Rightarrow> c = q \<and> glob qs cs)
      else p = c \<and> glob ps cs)"

definition client_get :: "redis \<Rightarrow> string \<Rightarrow> exn + payload option" where
  "client_get r k =
     (if \<not> available r then Inl RedisError
      else Inr (map_option fst (redis_lookup r k)))"

text \<open>
  \<open>SETEX\<close>: the client refuses a value that is not a string, the server refuses an expiry
  that is not positive.
\<close>

definition client_setEx :: "redis \<Rightarrow> string \<Rightarrow> int \<Rightarrow> payload option \<Rightarrow> exn + redis" where
  "client_setEx r k ttl v =
     (case v of
        None \<Rightarrow> Inl TypeError
      | Some pl \<Rightarrow>
          if \<not> available r \<or> ttl \<le> 0 then Inl RedisError
          else Inr (r\<lparr>entries := (k, pl, Some ttl) # filter (\<lambda>e. fst e \<noteq> k) (entries r)\<rparr>))"

definition client_del :: "redis \<Rightarrow> string list \<Rightarrow> exn + (nat \<times> redis)" where
  "client_del r ks =
     (if \<not> available r then Inl RedisError
      else Inr (length (filter (\<lambda>e. fst e \<in> set ks) (entries r)),
                r\<lparr>entries := filter (\<lambda>e. fst e \<notin> set ks) (entries r)\<rparr>))"

definition client_keys :: "redis \<Rightarrow> string \<Rightarrow> exn + string list" where
  "client_keys r pattern =
     (if \<not> available r then Inl RedisError
      else Inr (map fst (filter (\<lambda>e. glob pattern (fst e)) (entries r))))"

definition client_exists :: "redis \<Rightarrow> string \<Rightarrow> exn + nat" where
  "client_exists r k =
     (if \<not> available r then Inl RedisError
      else Inr (if redis_lookup r k = None then 0 else 1))"

definition client_flushDb :: "redis \<Rightarrow> exn + redis" where
  "client_flushDb r =
     (if \<not> available r then Inl RedisError else Inr (r\<lparr>entries := []\<rparr>))"


section \<open>The cache backend client (cache.service.ts)\<close>

record EnvConfig =
  REDIS_KEY_PREFIX :: "string option"
  APP_NAME :: string
  CACHE_TTL_SECONDS :: int

datatype RedisClientType = RedisClient

record CacheService =
  client :: "RedisClientType option"
  isConnected :: bool
  keyPrefix :: string

text \<open>\<open>env.REDIS_KEY_PREFIX || env.APP_NAME || 'default'\<close>: an empty string is falsy.\<close>

definition new_CacheService :: "EnvConfig \<Rightarrow> CacheService" where
  "new_CacheService env =
     \<lparr>client = None, isConnected = False,
      keyPrefix =
        (case REDIS_KEY_PREFIX env of
           Some p \<Rightarrow> if p \<noteq> [] then p else if APP_NAME env \<noteq> [] then APP_NAME env else ''default''
         | None \<Rightarrow> if APP_NAME env \<noteq> [] then APP_NAME env else ''default'')\<rparr>"

definition isReady :: "CacheService \<Rightarrow> bool" where
  "isReady svc = (isConnected svc \<and> client svc \<noteq> None)"

definition getPrefixedKey :: "CacheService \<Rightarrow> string \<Rightarrow> string" where
  "getPrefixedKey svc key = keyPrefix svc @ '':'' @ key"

text \<open>
  Every operation is an \<open>async\<close> method: its result is \<open>Inr\<close> of the value the promise
  resolves to or \<open>Inl\<close> of the exception it rejects with, paired with the backend after the
  call. The \<open>case\<close> on the result of a client command is the \<open>try\<close>/\<open>catch\<close> of the
  source; a miss of \<open>get\<close> is the value \<open>null\<close>.
\<close>

definition cache_get :: "CacheService \<Rightarrow> redis \<Rightarrow> string \<Rightarrow> exn + jsval" where
  "cache_get svc r key =
     (if client svc = None \<or> \<not> isConnected svc then Inr JNull
      else
        (case client_get r (getPrefixedKey svc key) of
           Inl e \<Rightarrow> Inr JNull
         | Inr None \<Rightarrow> Inr JNull
         | Inr (Some data) \<Rightarrow>
             if truthy_payload data then
               (case JSON_parse data of Inl e \<Rightarrow> Inr JNull | Inr v \<Rightarrow> Inr v)
             else Inr JNull))"

text \<open>\<open>ttlSeconds || env.CACHE_TTL_SECONDS\<close>\<close>

definition effective_ttl :: "EnvConfig \<Rightarrow> int option \<Rightarrow> int" where
  "effective_ttl env ttlSeconds =
     (case ttlSeconds of
        None \<Rightarrow> CACHE_TTL_SECONDS env
      | Some t \<Rightarrow> if t \<noteq> 0 then t else CACHE_TTL_SECONDS env)"

definition cache_set ::
  "CacheService \<Rightarrow> EnvConfig \<Rightarrow> redis \<Rightarrow> string \<Rightarrow> jsval \<Rightarrow> int option \<Rightarrow> (exn + bool) \<times> redis" where
  "cache_set svc env r key v ttlSeconds =
     (if client svc = None \<or> \<not> isConnected svc then (Inr False, r)
      else
        (let ttl = effective_ttl env ttlSeconds;
             prefixedKey = getPrefixedKey svc key
         in case client_setEx r prefixedKey ttl (JSON_stringify v) of
              Inl e \<Rightarrow> (Inr False, r)
            | Inr r' \<Rightarrow> (Inr True, r')))"

definition cache_delete :: "CacheService \<Rightarrow> redis \<Rightarrow> string \<Rightarrow> (exn + bool) \<times> redis" where
  "cache_delete svc r key =
     (if client svc = None \<or> \<not> isConnected svc then (Inr False, r)
      else
        (case client_del r [getPrefixedKey svc key] of
           Inl e \<Rightarrow> (Inr False, r)
         | Inr (result, r') \<Rightarrow> (Inr (result > 0), r')))"

definition cache_deletePattern :: "CacheService \<Rightarrow> redis \<Rightarrow> string \<Rightarrow> (exn + nat) \<times> redis" where
  "cache_deletePattern svc r pattern =
     (if client svc = None \<or> \<not> isConnected svc then (Inr 0, r)
      else
        (case client_keys r (getPrefixedKey svc pattern) of
           Inl e \<Rightarrow> (Inr 0, r)
         | Inr keys \<Rightarrow>
             if length keys = 0 then (Inr 0, r)
             else
               (case client_del r keys of
                  Inl e \<Rightarrow> (Inr 0, r)
                | Inr (result, r') \<Rightarrow> (Inr result, r'))))"

definition cache_exists :: "CacheService \<Rightarrow> redis \<Rightarrow> string \<Rightarrow> exn + bool" where
  "cache_exists svc r key =
     (if client svc = None \<or> \<not> isConnected svc then Inr False
      else
        (case client_exists r (getPrefixedKey svc key) of
           Inl e \<Rightarrow> Inr False
         | Inr result \<Rightarrow> Inr (result = 1)))"

definition cache_flush :: "CacheService \<Rightarrow> redis \<Rightarrow> (exn + bool) \<times> redis" where
  "cache_flush svc r =
     (if client svc = None \<or> \<not> isConnected svc then (Inr False, r)
      else
        (case client_flushDb r of
           Inl e \<Rightarrow> (Inr False, r)
         | Inr r' \<Rightarrow> (Inr True, r')))"

subsection \<open>The earlier service, without a key prefix\<close>

text \<open>
  The first version of the service has no \<open>keyPrefix\<close>: the same methods pass the caller's
  key to the client as it is.
\<close>

definition legacy_get :: "CacheService \<Rightarrow> redis \<Rightarrow> string \<Rightarrow> exn + jsval" where
  "legacy_get svc r key =
     (if client svc = None \<or> \<not> isConnected svc then Inr JNull
      else
        (case client_get r key of
           Inl e \<Rightarrow> Inr JNull
         | Inr None \<Rightarrow> Inr JNull
         | Inr (Some data) \<Rightarrow>
             if truthy_payload data then
               (case JSON_parse data of Inl e \<Rightarrow> Inr JNull | Inr v \<Rightarrow> Inr v)
             else Inr JNull))"

definition legacy_set ::
  "CacheService \<Rightarrow> EnvConfig \<Rightarrow> redis \<Rightarrow> string \<Rightarrow> jsval \<Rightarrow> int option \<Rightarrow> (exn + bool) \<times> redis" where
  "legacy_set svc env r key v ttlSeconds =
     (if client svc = None \<or> \<not> isConnected svc then (Inr False, r)
      else
        (let ttl = effective_ttl env ttlSeconds
         in case client_setEx r key ttl (JSON_stringify v) of
              Inl e \<Rightarrow> (Inr False, r)
            | Inr r' \<Rightarrow> (Inr True, r')))"

definition legacy_delete :: "CacheService \<Rightarrow> redis \<Rightarrow> string \<Rightarrow> (exn + bool) \<times> redis" where
  "legacy_delete svc r key =
     (if client svc = None \<or> \<not> isConnected svc then (Inr False, r)
      else
        (case client_del r [key] of
           Inl e \<Rightarrow> (Inr False, r)
         | Inr (result, r') \<Rightarrow> (Inr (result > 0), r')))"

definition legacy_deletePattern :: "CacheService \<Rightarrow> redis \<Rightarrow> string \<Rightarrow> (exn + nat) \<times> redis" where
  "legacy_deletePattern svc r pattern =
     (if client svc = None \<or> \<not> isConnected svc then (Inr 0, r)
      else
        (case client_keys r pattern of
           Inl e \<Rightarrow> (Inr 0, r)
         | Inr keys \<Rightarrow>
             if length keys = 0 then (Inr 0, r)
             else
               (case client_del r keys of
                  Inl e \<Rightarrow> (Inr 0, r)
                | Inr (result, r') \<Rightarrow> (Inr result, r'))))"

definition legacy_exists :: "CacheService \<Rightarrow> redis \<Rightarrow> string \<Rightarrow> exn + bool" where
  "legacy_exists svc r key =
     (if client svc = None \<or> \<not> isConnected svc then Inr False
      else
        (case client_exists r key of
           Inl e \<Rightarrow> Inr False
         | Inr result \<Rightarrow> Inr (result = 1)))"

definition legacy_flush :: "CacheService \<Rightarrow> redis \<Rightarrow> (exn + bool) \<times> redis" where
  "legacy_flush svc r =
     (if client svc = None \<or> \<not> isConnected svc then (Inr False, r)
      else
        (case client_flushDb r of
           Inl e \<Rightarrow> (Inr False, r)
         | Inr r' \<Rightarrow> (Inr True, r')))"


section \<open>The cache-aside repository (user.repository.ts)\<close>

record UserResponse =
  id_str :: string
  name :: string
  email :: string
  phone :: string
  is_active :: bool
  created_at :: string

text \<open>
  \<open>prisma.user\<close>, the store of record: each call either rejects or resolves, a mutation
  with the database after it. The repository hands the DTOs through unread, so their types
  are parameters.
\<close>

record ('db, 'c, 'u) UserModel =
  prisma_findUnique :: "'db \<Rightarrow> string \<Rightarrow> exn + UserResponse option"
  prisma_create :: "'db \<Rightarrow> 'c \<Rightarrow> exn + (UserResponse \<times> 'db)"
  prisma_update :: "'db \<Rightarrow> string \<Rightarrow> 'u \<Rightarrow> exn + (UserResponse \<times> 'db)"
  prisma_delete :: "'db \<Rightarrow> string \<Rightarrow> exn + (UserResponse \<times> 'db)"

text \<open>\<open>Promise.all\<close>: rejects with the first rejection, else resolves to all results.\<close>

fun Promise_all :: "(exn + 'a) list \<Rightarrow> exn + 'a list" where
  "Promise_all [] = Inr []"
| "Promise_all (Inl e # ps) = Inl e"
| "Promise_all (Inr x # ps) =
     (case Promise_all ps of Inl e \<Rightarrow> Inl e | Inr xs \<Rightarrow> Inr (x # xs))"

text \<open>
  \<open>oldEmail\<close> and \<open>newEmail\<close> are \<open>string | undefined\<close>; \<open>if (oldEmail)\<close> is false for
  \<open>undefined\<close> and for the empty string. The deletes are issued in the order they are
  pushed.
\<close>

definition invalidateUserCache ::
  "CacheService \<Rightarrow> redis \<Rightarrow> string \<Rightarrow> string option \<Rightarrow> string option \<Rightarrow> (exn + bool list) \<times> redis" where
  "invalidateUserCache svc r userId oldEmail newEmail =
     (let (p1, r1) = cache_delete svc r (generateUserKey userId);
          (ps2, r2) =
            (case oldEmail of
               None \<Rightarrow> ([], r1)
             | Some old \<Rightarrow>
                 if old \<noteq> [] then
                   (let (p, r') = cache_delete svc r1 (generateUserByEmailKey old) in ([p], r'))
                 else ([], r1));
          (ps3, r3) =
            (case newEmail of
               None \<Rightarrow> ([], r2)
             | Some new \<Rightarrow>
                 if new \<noteq> [] \<and> newEmail \<noteq> oldEmail then
                   (let (p, r') = cache_delete svc r2 (generateUserByEmailKey new) in ([p], r'))
                 else ([], r2))
      in (Promise_all (p1 # ps2 @ ps3), r3))"

definition invalidateUsersListCache :: "CacheService \<Rightarrow> redis \<Rightarrow> (exn + nat) \<times> redis" where
  "invalidateUsersListCache svc r = cache_deletePattern svc r ''users:list:*''"

definition repo_create ::
  "('db, 'c, 'u) UserModel \<Rightarrow> CacheService \<Rightarrow> 'db \<Rightarrow> redis \<Rightarrow> 'c
     \<Rightarrow> (exn + UserResponse) \<times> 'db \<times> redis" where
  "repo_create um svc db r data =
     (case prisma_create um db data of
        Inl e \<Rightarrow> (Inl e, db, r)
      | Inr (result, db') \<Rightarrow>
          (case invalidateUsersListCache svc r of
             (Inl e, r1) \<Rightarrow> (Inl e, db', r1)
           | (Inr n, r1) \<Rightarrow> (Inr result, db', r1)))"

definition repo_update ::
  "('db, 'c, 'u) UserModel \<Rightarrow> CacheService \<Rightarrow> 'db \<Rightarrow> redis \<Rightarrow> string \<Rightarrow> 'u
     \<Rightarrow> (exn + UserResponse) \<times> 'db \<times> redis" where
  "repo_update um svc db r i data =
     (case prisma_findUnique um db i of
        Inl e \<Rightarrow> (Inl e, db, r)
      | Inr currentUser \<Rightarrow>
          (case prisma_update um db i data of
             Inl e \<Rightarrow> (Inl e, db, r)
           | Inr (result, db') \<Rightarrow>
               (case invalidateUserCache svc r i (map_option email currentUser)
                       (Some (email result)) of
                  (Inl e, r1) \<Rightarrow> (Inl e, db', r1)
                | (Inr ds, r1) \<Rightarrow>
                    (case invalidateUsersListCache svc r1 of
                       (Inl e, r2) \<Rightarrow> (Inl e, db', r2)
                     | (Inr n, r2) \<Rightarrow> (Inr result, db', r2)))))"

definition repo_delete ::
  "('db, 'c, 'u) UserModel \<Rightarrow> CacheService \<Rightarrow> 'db \<Rightarrow> redis \<Rightarrow> string
     \<Rightarrow> (exn + UserResponse) \<times> 'db \<times> redis" where
  "repo_delete um svc db r i =
     (case prisma_findUnique um db i of
        Inl e \<Rightarrow> (Inl e, db, r)
      | Inr userToDelete \<Rightarrow>
          (case prisma_delete um db i of
             Inl e \<Rightarrow> (Inl e, db, r)
           | Inr (result, db') \<Rightarrow>
               (case (case userToDelete of
                        None \<Rightarrow> (Inr [], r)
                      | Some u \<Rightarrow> invalidateUserCache svc r i (Some (email u)) None) of
                  (Inl e, r1) \<Rightarrow> (Inl e, db', r1)
                | (Inr ds, r1) \<Rightarrow>
                    (case invalidateUsersListCache svc r1 of
                       (Inl e, r2) \<Rightarrow> (Inl e, db', r2)
                     | (Inr n, r2) \<Rightarrow> (Inr result, db', r2)))))"

subsection \<open>An in-memory users table\<close>

text \<open>
  A table of user rows with the primary key on \<open>id\<close> and the unique index on \<open>email\<close> of
  the migration, to run the repository on concrete data. A create carries the row to
  insert, an update the new values of the columns it changes.
\<close>

record UpdateUserDTO =
  new_name :: "string option"
  new_email :: "string option"
  new_phone :: "string option"

definition apply_update :: "UpdateUserDTO \<Rightarrow> UserResponse \<Rightarrow> UserResponse" where
  "apply_update d u =
     u\<lparr>name := (case new_name d of None \<Rightarrow> name u | Some x \<Rightarrow> x),
       email := (case new_email d of None \<Rightarrow> email u | Some x \<Rightarrow> x),
       phone := (case new_phone d of None \<Rightarrow> phone u | Some x \<Rightarrow> x)\<rparr>"

definition table_findUnique :: "UserResponse list \<Rightarrow> string \<Rightarrow> exn + UserResponse option" where
  "table_findUnique db i = Inr (find (\<lambda>u. id_str u = i) db)"

definition table_create ::
  "UserResponse list \<Rightarrow> UserResponse \<Rightarrow> exn + (UserResponse \<times> UserResponse list)" where
  "table_create db u =
     (if \<exists>x \<in> set db. id_str x = id_str u \<or> email x = email u
      then Inl (DbError ''P2002'')
      else Inr (u, db @ [u]))"

definition table_update ::
  "UserResponse list \<Rightarrow> string \<Rightarrow> UpdateUserDTO \<Rightarrow> exn + (UserResponse \<times> UserResponse list)" where
  "table_update db i d =
     (case find (\<lambda>u. id_str u = i) db of
        None \<Rightarrow> Inl (DbError ''P2025'')
      | Some u \<Rightarrow>
          if \<exists>x \<in> set db. id_str x \<noteq> i \<and> email x = email (apply_update d u)
          then Inl (DbError ''P2002'')
          else Inr (apply_update d u,
                    map (\<lambda>x. if id_str x = i then apply_update d x else x) db))"

definition table_delete ::
  "UserResponse list \<Rightarrow> string \<Rightarrow> exn + (UserResponse \<times> UserResponse list)" where
  "table_delete db i =
     (case find (\<lambda>u. id_str u = i) db of
        None \<Rightarrow> Inl (DbError ''P2025'')
      | Some u \<Rightarrow> Inr (u, filter (\<lambda>x. id_str x \<noteq> i) db))"

definition users_table :: "(UserResponse list, UserResponse, UpdateUserDTO) UserModel" where
  "users_table =
     \<lparr>prisma_findUnique = table_findUnique, prisma_create = table_create,
      prisma_update = table_update, prisma_delete = table_delete\<rparr>"

section \<open>Predicates of the statements\<close>

definition colon_free :: "string \<Rightarrow> bool" where
  "colon_free s = (CHR '':'' \<notin> set s)"

text \<open>
  What a list key shows of its descriptor: the page and the limit when they are truthy,
  and, of the filters, the names whose value is neither \<open>undefined\<close> nor \<open>null\<close>, in
  sorted order, each with the text \<open>String(value)\<close>.
\<close>

definition effective_num :: "jsnum option \<Rightarrow> jsnum option" where
  "effective_num x = (if truthy_num x then x else None)"

fun rendered :: "filters \<Rightarrow> string list \<Rightarrow> (string \<times> string) list" where
  "rendered f [] = []"
| "rendered f (k # ks) =
     (case map_of f k of
        None \<Rightarrow> rendered f ks
      | Some v \<Rightarrow>
          if v \<noteq> PUndefined \<and> v \<noteq> PNull then (k, String_of v) # rendered f ks
          else rendered f ks)"

definition rendered_filters :: "filters option \<Rightarrow> (string \<times> string) list" where
  "rendered_filters fs =
     (case fs of None \<Rightarrow> [] | Some f \<Rightarrow> rendered f (sort (Object_keys f)))"

text \<open>
  The segments that a list key appends for them: for a truthy page and a truthy limit,
  and for the filters shown.
\<close>

definition pagination_segments :: "jsnum option \<Rightarrow> jsnum option \<Rightarrow> string list" where
  "pagination_segments pg lm =
     (case (pg, lm) of
        (Some a, Some b) \<Rightarrow> [''page'', Number_toString a, ''limit'', Number_toString b]
      | (Some a, None) \<Rightarrow> [''page'', Number_toString a]
      | (None, Some b) \<Rightarrow> [''limit'', Number_toString b]
      | (None, None) \<Rightarrow> [''all''])"

definition segments :: "(string \<times> string) list \<Rightarrow> string list" where
  "segments ps = concat (map (\<lambda>p. [fst p, snd p]) ps)"

text \<open>
  Filters whose names and value texts have no colon, none of them named \<open>limit\<close>.
\<close>

definition plain_filters :: "filters option \<Rightarrow> bool" where
  "plain_filters fs =
     (case fs of
        None \<Rightarrow> True
      | Some f \<Rightarrow> \<forall>m \<in> set f. colon_free (fst m) \<and> fst m \<noteq> ''limit''
                                \<and> colon_free (String_of (snd m)))"

text \<open>A string without the characters that are special in a glob pattern.\<close>

definition glob_free :: "string \<Rightarrow> bool" where
  "glob_free s = (\<forall>c \<in> set s. c \<noteq> CHR ''*'' \<and> c \<noteq> CHR ''?'' \<and> c \<noteq> CHR ''['' \<and> c \<noteq> CHR 0x5C)"

text \<open>
  A value is plain JSON when it is built from \<open>null\<close>, booleans, finite numbers other than
  the negative zero, strings, arrays and plain objects alone.
\<close>

fun json_number :: "jsnum \<Rightarrow> bool" where
  "json_number (IntNum i) = True"
| "json_number n = False"

fun json_plain :: "jsval \<Rightarrow> bool" where
  "json_plain JUndefined = False"
| "json_plain (JDate d) = False"
| "json_plain (JNum n) = json_number n"
| "json_plain (JArr xs) = (\<forall>x \<in> set xs. json_plain x)"
| "json_plain (JObj ms) = (\<forall>m \<in> set ms. json_plain (snd m))"
| "json_plain v = True"

text \<open>Every entry of the backend expires after a positive number of seconds.\<close>

definition all_expire :: "redis \<Rightarrow> bool" where
  "all_expire r = (\<forall>e \<in> set (entries r). \<exists>t. snd (snd e) = Some t \<and> 0 < t)"

section \<open>Concrete states\<close>

text \<open>
  The configuration with its defaults, a service that is connected and one that is not,
  user rows, and backends that hold cached users of the service beside keys of other
  namespaces.
\<close>

definition env_default :: EnvConfig where
  "env_default = \<lparr>REDIS_KEY_PREFIX = None, APP_NAME = ''express-api'', CACHE_TTL_SECONDS = 3600\<rparr>"

definition svc_up :: CacheService where
  "svc_up = \<lparr>client = Some RedisClient, isConnected = True, keyPrefix = ''express-api''\<rparr>"

definition svc_down :: CacheService where
  "svc_down = \<lparr>client = Some RedisClient, isConnected = False, keyPrefix = ''express-api''\<rparr>"

definition svc_star :: CacheService where
  "svc_star = \<lparr>client = Some RedisClient, isConnected = True, keyPrefix = ''app*''\<rparr>"

definition john :: UserResponse where
  "john = \<lparr>id_str = ''1'', name = ''John'', email = ''john@test.com'', phone = ''123456789'',
            is_active = True, created_at = ''2025-07-02T15:13:18.000Z''\<rparr>"

definition jane :: UserResponse where
  "jane = \<lparr>id_str = ''1'', name = ''John'', email = ''jane@test.com'', phone = ''123456789'',
            is_active = True, created_at = ''2025-07-02T15:13:18.000Z''\<rparr>"

definition no_email :: UserResponse where
  "no_email = \<lparr>id_str = ''7'', name = ''Nemo'', email = [], phone = ''555'',
               is_active = True, created_at = ''2025-07-02T15:13:18.000Z''\<rparr>"

definition rename_only :: UpdateUserDTO where
  "rename_only = \<lparr>new_name = Some ''Jane'', new_email = None, new_phone = None\<rparr>"

definition change_email :: UpdateUserDTO where
  "change_email = \<lparr>new_name = None, new_email = Some ''jane@test.com'', new_phone = None\<rparr>"

definition john_json :: jsval where
  "john_json = JObj [(''id'', JStr ''1''), (''email'', JStr ''john@test.com'')]"

definition john_row :: jsval where
  "john_row = JObj [(''id'', JStr ''1''), (''email'', JStr ''john@test.com''),
                    (''created_at'', JDate ''2025-07-02T15:13:18.000Z'')]"

definition redis_sample :: redis where
  "redis_sample =
     \<lparr>entries =
        [(''express-api:user:1'', JsonText john_json, Some 900),
         (''express-api:user:email:john@test.com'', JsonText john_json, Some 900),
         (''express-api:users:list:all'', JsonText (JArr [john_json]), Some 300),
         (''express-api:user:2'', JsonText (JStr ''other''), Some 900),
         (''billing:user:1'', JsonText (JStr ''invoice''), Some 60)],
      available = True\<rparr>"

definition redis_after_update :: redis where
  "redis_after_update =
     \<lparr>entries =
        [(''express-api:user:2'', JsonText (JStr ''other''), Some 900),
         (''billing:user:1'', JsonText (JStr ''invoice''), Some 60)],
      available = True\<rparr>"

definition redis_stale :: redis where
  "redis_stale =
     \<lparr>entries =
        [(''express-api:user:7'', JsonText (JStr ''Nemo''), Some 900),
         (''express-api:user:email:'', JsonText (JStr ''Nemo''), Some 900)],
      available = True\<rparr>"

definition redis_shared :: redis where
  "redis_shared =
     \<lparr>entries =
        [(''app*:users:list:all'', JsonText (JArr []), Some 300),
         (''apple:users:list:all'', JsonText (JArr []), Some 300)],
      available = True\<rparr>"

definition redis_garbage :: redis where
  "redis_garbage =
     \<lparr>entries = [(''express-api:user:1'', RawText ''{broken'', Some 900)], available = True\<rparr>"

section \<open>Key derivation: determinism\<close>

lemma push_filters_acc: "push_filters f ks parts = parts @ push_filters f ks []"
proof (induction ks arbitrary: parts)
  case Nil
  show ?case by simp
next
  case (Cons k ks)
  define step where "step = (\<lambda>ps. case map_of f k of None \<Rightarrow> ps
     | Some v \<Rightarrow> if v \<noteq> PUndefined \<and> v \<noteq> PNull then ps @ [k, String_of v] else ps)"
  have a: "step parts = parts @ step []"
    by (simp add: step_def split: option.splits)
  have "push_filters f (k # ks) parts = step parts @ push_filters f ks []"
    using Cons.IH [of "step parts"] by (simp add: step_def)
  moreover have "push_filters f (k # ks) [] = step [] @ push_filters f ks []"
    using Cons.IH [of "step []"] by (simp add: step_def)
  ultimately show ?case using a by simp
qed

lemma push_filters_map_of:
  "map_of f1 = map_of f2 \<Longrightarrow> push_filters f1 ks parts = push_filters f2 ks parts"
  by (induction ks arbitrary: parts) simp_all

lemma sort_keys_eq:
  assumes "distinct xs" "distinct ys" "set xs = set ys"
  shows "sort xs = sort (ys :: string list)"
  by (rule sorted_distinct_set_unique) (simp_all add: assms)

text \<open>
  C1. For every entity type and pagination, two filter objects that hold the same
  name-value pairs, inserted in whatever order, give the same list key: the names are
  sorted before they are appended.
\<close>

theorem entityList_filter_order:
  assumes "wf_object f1" and "wf_object f2" and "set f1 = set f2"
  shows "entityList entityType pagination (Some f1) = entityList entityType pagination (Some f2)"
proof -
  have m: "map_of f1 = map_of f2"
    using assms by (simp add: wf_object_def map_of_inject_set)
  have "set (map fst f1) = set (map fst f2)"
    using assms(3) by simp
  then have s: "sort (Object_keys f1) = sort (Object_keys f2)"
    using assms(1,2) unfolding wf_object_def Object_keys_def by (intro sort_keys_eq)
  have l: "(length (Object_keys f1) > 0) = (length (Object_keys f2) > 0)"
    using assms(3) by (cases f1; cases f2) (auto simp: Object_keys_def)
  show ?thesis
    unfolding entityList_def Let_def using s l push_filters_map_of [OF m] by simp
qed

theorem entityList_filter_order_witness:
  "wf_object [(''role'', PStr ''admin''), (''is_active'', PBool True)]
   \<and> wf_object [(''is_active'', PBool True), (''role'', PStr ''admin'')]
   \<and> entityList ''users'' None (Some [(''role'', PStr ''admin''), (''is_active'', PBool True)])
     = entityList ''users'' None (Some [(''is_active'', PBool True), (''role'', PStr ''admin'')])
   \<and> entityList ''users'' None (Some [(''role'', PStr ''admin''), (''is_active'', PBool True)])
     = ''users:list:all:is_active:true:role:admin''"
proof -
  have w1: "wf_object [(''role'', PStr ''admin''), (''is_active'', PBool True)]"
    by (simp add: wf_object_def)
  have w2: "wf_object [(''is_active'', PBool True), (''role'', PStr ''admin'')]"
    by (simp add: wf_object_def)
  have s: "set [(''role'', PStr ''admin''), (''is_active'', PBool True)]
         = set [(''is_active'', PBool True), (''role'', PStr ''admin'')]"
    by auto
  have v: "entityList ''users'' None (Some [(''role'', PStr ''admin''), (''is_active'', PBool True)])
     = ''users:list:all:is_active:true:role:admin''"
    by code_simp
  show ?thesis
    using w1 w2 v entityList_filter_order [OF w1 w2 s, of "''users''" None] by simp
qed

section \<open>The text of a number\<close>

lemma digit_char_mem: "d < 10 \<Longrightarrow> digit_char d \<in> set ''0123456789''"
  unfolding digit_char_def by (rule nth_mem) simp

lemma digit_char_inj:
  assumes "a < 10" and "b < 10" and "digit_char a = digit_char b"
  shows "a = b"
proof -
  have "distinct ''0123456789''" by simp
  moreover have "a < length ''0123456789''" "b < length ''0123456789''"
    using assms(1,2) by simp_all
  ultimately show ?thesis
    using assms(3) unfolding digit_char_def by (simp only: nth_eq_iff_index_eq)
qed

lemma string_of_nat_digits: "set (string_of_nat n) \<subseteq> set ''0123456789''"
proof (induction n rule: string_of_nat.induct)
  case (1 n)
  show ?case
  proof (cases "n < 10")
    case True
    then show ?thesis
      using digit_char_mem [of n] by (subst string_of_nat.simps) simp
  next
    case False
    have "n mod 10 < 10" by simp
    then have "digit_char (n mod 10) \<in> set ''0123456789''" by (rule digit_char_mem)
    with False "1.IH" show ?thesis
      by (subst string_of_nat.simps) simp
  qed
qed

lemma string_of_nat_nonempty: "string_of_nat n \<noteq> []"
  by (subst string_of_nat.simps) simp

lemma string_of_nat_inj: "string_of_nat n = string_of_nat m \<Longrightarrow> n = m"
proof (induction n arbitrary: m rule: string_of_nat.induct)
  case (1 n)
  show ?case
  proof (cases "n < 10")
    case n: True
    show ?thesis
    proof (cases "m < 10")
      case True
      with n "1.prems" have "digit_char n = digit_char m"
        by (simp add: string_of_nat.simps [of n] string_of_nat.simps [of m])
      with n True show ?thesis by (rule digit_char_inj)
    next
      case False
      with n "1.prems" string_of_nat_nonempty [of "m div 10"] show ?thesis
        by (simp add: string_of_nat.simps [of n] string_of_nat.simps [of m])
    qed
  next
    case n: False
    show ?thesis
    proof (cases "m < 10")
      case True
      with n "1.prems" string_of_nat_nonempty [of "n div 10"] show ?thesis
        by (simp add: string_of_nat.simps [of n] string_of_nat.simps [of m])
    next
      case False
      with n "1.prems" have a: "string_of_nat (n div 10) = string_of_nat (m div 10)"
        and b: "digit_char (n mod 10) = digit_char (m mod 10)"
        by (simp_all add: string_of_nat.simps [of n] string_of_nat.simps [of m])
      from "1.IH" [OF n a] have "n div 10 = m div 10" .
      moreover have "n mod 10 = m mod 10"
        using b by (intro digit_char_inj) simp_all
      ultimately show ?thesis
        by (metis div_mult_mod_eq)
    qed
  qed
qed

lemma not_digit_string_of_nat:
  "c \<notin> set ''0123456789'' \<Longrightarrow> c \<notin> set (string_of_nat n)"
  using string_of_nat_digits [of n] by blast

lemma minus_not_digit: "CHR ''-'' \<notin> set (string_of_nat n)"
  by (rule not_digit_string_of_nat) simp

lemma not_in_int_text:
  "c \<notin> set ''0123456789'' \<Longrightarrow> c \<noteq> CHR ''-'' \<Longrightarrow> c \<notin> set (int_text i)"
  by (simp add: int_text_def not_digit_string_of_nat)

lemma int_text_inj: "int_text i = int_text j \<Longrightarrow> i = j"
proof (cases "i < 0"; cases "j < 0")
  assume "int_text i = int_text j" "i < 0" "j < 0"
  then have "nat (- i) = nat (- j)"
    by (simp add: int_text_def string_of_nat_inj)
  with \<open>i < 0\<close> \<open>j < 0\<close> show ?thesis by simp
next
  assume "int_text i = int_text j" "i < 0" "\<not> j < 0"
  then have e: "string_of_nat (nat j) = CHR ''-'' # string_of_nat (nat (- i))"
    by (simp add: int_text_def)
  have "CHR ''-'' \<in> set (string_of_nat (nat j))"
    unfolding e by simp
  then show ?thesis using minus_not_digit by blast
next
  assume "int_text i = int_text j" "\<not> i < 0" "j < 0"
  then have e: "string_of_nat (nat i) = CHR ''-'' # string_of_nat (nat (- j))"
    by (simp add: int_text_def)
  have "CHR ''-'' \<in> set (string_of_nat (nat i))"
    unfolding e by simp
  then show ?thesis using minus_not_digit by blast
next
  assume "int_text i = int_text j" "\<not> i < 0" "\<not> j < 0"
  then have "nat i = nat j"
    by (simp add: int_text_def string_of_nat_inj)
  with \<open>\<not> i < 0\<close> \<open>\<not> j < 0\<close> show ?thesis by simp
qed

lemma Number_toString_colon_free: "colon_free (Number_toString n)"
proof (cases n)
  case (IntNum i)
  have "CHR '':'' \<notin> set (int_text i)"
    by (rule not_in_int_text) simp_all
  with IntNum show ?thesis by (simp add: colon_free_def)
qed (simp_all add: colon_free_def)

lemma int_text_not_infinity:
  "int_text i \<noteq> ''Infinity''" "int_text i \<noteq> ''-Infinity''"
proof -
  have n: "CHR ''I'' \<notin> set (int_text i)"
    by (rule not_in_int_text) simp_all
  show "int_text i \<noteq> ''Infinity''"
  proof
    assume e: "int_text i = ''Infinity''"
    have "CHR ''I'' \<in> set (int_text i)" unfolding e by simp
    with n show False by simp
  qed
  show "int_text i \<noteq> ''-Infinity''"
  proof
    assume e: "int_text i = ''-Infinity''"
    have "CHR ''I'' \<in> set (int_text i)" unfolding e by simp
    with n show False by simp
  qed
qed

text \<open>Two truthy numbers with the same text are the same number.\<close>

lemma Number_toString_inj:
  assumes "truthy_jsnum a" and "truthy_jsnum b" and "Number_toString a = Number_toString b"
  shows "a = b"
proof (cases a; cases b)
  fix i j assume "a = IntNum i" "b = IntNum j"
  with assms(3) show ?thesis by (simp add: int_text_inj)
next
  fix i assume "a = IntNum i" "b = PosInfinity"
  with assms(3) int_text_not_infinity(1) [of i] show ?thesis by simp
next
  fix i assume "a = IntNum i" "b = NegInfinity"
  with assms(3) int_text_not_infinity(2) [of i] show ?thesis by simp
next
  fix j assume "a = PosInfinity" "b = IntNum j"
  with assms(3) int_text_not_infinity(1) [of j] show ?thesis by simp
next
  fix j assume "a = NegInfinity" "b = IntNum j"
  with assms(3) int_text_not_infinity(2) [of j] show ?thesis by simp
qed (use assms in simp_all)

section \<open>Key derivation: list keys, filters and partial pagination\<close>

lemma join_Cons_prefix: "\<exists>r. join sep (x # xs) = x @ r"
  by (cases xs) auto

lemma join3: "join sep (a # b # c # r) = a @ sep @ b @ sep @ join sep (c # r)"
  by simp

text \<open>
  The parts of a list key after the entity type and \<open>list\<close>: the pagination parts, of
  which there is at least one, then the filter parts.
\<close>

lemma entityList_parts:
  "\<exists>x xs. entityList entityType pagination fs = join '':'' (entityType # ''list'' # x # xs)"
proof -
  have "\<exists>x ps. push_pagination pagination [entityType, ''list'']
       = entityType # ''list'' # x # ps"
    by (cases "truthy_num (opt_page pagination)"; cases "truthy_num (opt_limit pagination)")
       (simp_all add: push_pagination_def Let_def)
  then obtain x ps where p: "push_pagination pagination [entityType, ''list'']
       = entityType # ''list'' # x # ps"
    by blast
  show ?thesis
  proof (cases "\<exists>f. fs = Some f \<and> length (Object_keys f) > 0")
    case True
    then obtain f where f: "fs = Some f" "length (Object_keys f) > 0" by blast
    have "entityList entityType pagination fs
        = join '':'' (entityType # ''list'' # x # (ps @ push_filters f (sort (Object_keys f)) []))"
      using f p push_filters_acc [of f "sort (Object_keys f)" "entityType # ''list'' # x # ps"]
      by (simp del: join.simps add: entityList_def Let_def)
    then show ?thesis by blast
  next
    case False
    then have "entityList entityType pagination fs = join '':'' (entityType # ''list'' # x # ps)"
      using p by (auto simp del: join.simps simp: entityList_def Let_def split: option.splits)
    then show ?thesis by blast
  qed
qed

lemma entityList_shape:
  "\<exists>rest. entityList entityType pagination fs = entityType @ '':list:'' @ rest"
proof -
  obtain x xs where "entityList entityType pagination fs
      = join '':'' (entityType # ''list'' # x # xs)"
    using entityList_parts by blast
  then have "entityList entityType pagination fs = entityType @ '':list:'' @ join '':'' (x # xs)"
    by (simp del: join.simps add: join3)
  then show ?thesis by blast
qed

lemma truthy_jsnum_iff: "truthy_jsnum n = (n \<noteq> IntNum 0 \<and> n \<noteq> NegZero \<and> n \<noteq> NaN)"
  by (cases n) simp_all

lemma entityList_falsy_page:
  assumes "\<not> truthy_jsnum n"
  shows "entityList entityType (Some \<lparr>page = Some n, limit = None\<rparr>) fs
         = entityList entityType None fs"
  using assms
  by (simp add: entityList_def push_pagination_def opt_page_def opt_limit_def truthy_num_def)

text \<open>
  C8 (as amended). An empty filter object gives the key of no filters at all. A pagination
  that supplies only a page gives, whatever the filters, a key different from the key of no
  pagination for every truthy page, that is for every number other than \<open>0\<close>, \<open>-0\<close> and
  \<open>NaN\<close>, and the key of no pagination for those three. The legacy
  \<open>generateUsersListKey\<close> gives the key of no pagination, \<open>users:list:all\<close>, for every
  call with a page and no limit.
\<close>

theorem entityList_empty_filters_and_page_only:
  "entityList entityType pagination (Some []) = entityList entityType pagination None
   \<and> (n \<noteq> IntNum 0 \<and> n \<noteq> NegZero \<and> n \<noteq> NaN \<longrightarrow>
        entityList entityType (Some \<lparr>page = Some n, limit = None\<rparr>) fs
        \<noteq> entityList entityType None fs)
   \<and> (n = IntNum 0 \<or> n = NegZero \<or> n = NaN \<longrightarrow>
        entityList entityType (Some \<lparr>page = Some n, limit = None\<rparr>) fs
        = entityList entityType None fs)
   \<and> generateUsersListKey (Some n) None = generateUsersListKey None None
   \<and> generateUsersListKey None None = ''users:list:all''"
proof (intro conjI impI)
  show "entityList entityType pagination (Some []) = entityList entityType pagination None"
    by (simp add: entityList_def Object_keys_def)
next
  assume "n \<noteq> IntNum 0 \<and> n \<noteq> NegZero \<and> n \<noteq> NaN"
  then have n: "truthy_jsnum n" by (simp add: truthy_jsnum_iff)
  define ft where "ft = (case fs of None \<Rightarrow> [] | Some f \<Rightarrow>
      if length (Object_keys f) > 0 then push_filters f (sort (Object_keys f)) []
      else ([]::string list))"
  have e1: "entityList entityType (Some \<lparr>page = Some n, limit = None\<rparr>) fs
        = join '':'' ([entityType, ''list'', ''page'', Number_toString n] @ ft)"
    using n
    by (simp add: entityList_def push_pagination_def opt_page_def opt_limit_def truthy_num_def
        num_text_def ft_def Let_def push_filters_acc [where parts = "_ # _"] split: option.splits)
  have e2: "entityList entityType None fs = join '':'' ([entityType, ''list'', ''all''] @ ft)"
    by (simp add: entityList_def push_pagination_def opt_page_def opt_limit_def truthy_num_def
        num_text_def ft_def Let_def push_filters_acc [where parts = "_ # _"] split: option.splits)
  obtain r1 where r1: "join '':'' (''page'' # Number_toString n # ft) = ''page'' @ r1"
    using join_Cons_prefix by blast
  obtain r2 where r2: "join '':'' (''all'' # ft) = ''all'' @ r2"
    using join_Cons_prefix by blast
  show "entityList entityType (Some \<lparr>page = Some n, limit = None\<rparr>) fs
        \<noteq> entityList entityType None fs"
    unfolding e1 e2 using r1 r2 by (simp del: join.simps add: join3)
next
  assume "n = IntNum 0 \<or> n = NegZero \<or> n = NaN"
  then have "\<not> truthy_jsnum n" by (simp add: truthy_jsnum_iff)
  then show "entityList entityType (Some \<lparr>page = Some n, limit = None\<rparr>) fs
        = entityList entityType None fs"
    by (rule entityList_falsy_page)
next
  show "generateUsersListKey (Some n) None = generateUsersListKey None None"
    by (simp add: generateUsersListKey_def truthy_num_def)
  show "generateUsersListKey None None = ''users:list:all''"
    by (simp add: generateUsersListKey_def truthy_num_def)
qed

theorem entityList_empty_filters_and_page_only_witness:
  "IntNum 3 \<noteq> IntNum 0 \<and> IntNum 3 \<noteq> NegZero \<and> IntNum 3 \<noteq> NaN
   \<and> entityList ''users'' (Some \<lparr>page = Some (IntNum 3), limit = None\<rparr>) None
     \<noteq> entityList ''users'' None None
   \<and> entityList ''users'' (Some \<lparr>page = Some (IntNum 3), limit = None\<rparr>) None
     = ''users:list:page:3''
   \<and> entityList ''users'' (Some \<lparr>page = Some NaN, limit = None\<rparr>) None
     = entityList ''users'' None None"
proof -
  have v: "entityList ''users'' (Some \<lparr>page = Some (IntNum 3), limit = None\<rparr>) None
     = ''users:list:page:3''"
    by code_simp
  show ?thesis
    using v
      entityList_empty_filters_and_page_only [of "''users''" None "IntNum 3" None]
      entityList_empty_filters_and_page_only [of "''users''" None NaN None]
    by simp
qed

text \<open>
  The claim as stated, "for every page value", fails at the falsy pages \<open>0\<close>, \<open>NaN\<close> and
  \<open>-0\<close>: the key is the key of no pagination. And the legacy generator gives the key of
  no pagination for a call with page 3 and no limit.
\<close>

theorem entityList_page_zero_counterexample:
  "entityList ''users'' (Some \<lparr>page = Some (IntNum 0), limit = None\<rparr>) None
     = entityList ''users'' None None
   \<and> entityList ''users'' (Some \<lparr>page = Some NaN, limit = None\<rparr>) None
     = entityList ''users'' None None
   \<and> entityList ''users'' (Some \<lparr>page = Some NegZero, limit = None\<rparr>) None
     = entityList ''users'' None None
   \<and> generateUsersListKey (Some (IntNum 3)) None = generateUsersListKey None None"
  by (simp add: entityList_def push_pagination_def opt_page_def opt_limit_def truthy_num_def
      generateUsersListKey_def)

section \<open>Key derivation: the shape of single-entity keys\<close>

text \<open>
  C9 (as amended). A by-id key is the entity type and the id joined by a colon, and a
  by-field key is the entity type, the field name and the value joined by colons: no
  access-kind segment \<open>id\<close> or \<open>field\<close> stands between them. The key of user \<open>1\<close> is
  \<open>user:1\<close> and the key of e-mail \<open>e\<close> is \<open>user:email:e\<close>; the legacy generators of the
  service give the same keys.
\<close>

theorem single_entity_key_shape:
  "entityById entityType i = join '':'' [entityType, id_text i]
   \<and> entityByField entityType field v = join '':'' [entityType, field, v]
   \<and> entityById ''user'' (StrId ''1'') = ''user:1''
   \<and> entityByField ''user'' ''email'' e = ''user:email:'' @ e
   \<and> generateUserKey s = entityById ''user'' (StrId s)
   \<and> generateUserByEmailKey e = entityByField ''user'' ''email'' e"
  by (simp add: entityById_def entityByField_def generateUserKey_def generateUserByEmailKey_def)

text \<open>The keys the claim names are not the keys the code derives.\<close>

theorem single_entity_key_counterexample:
  "entityById ''user'' (StrId ''1'') \<noteq> ''user:id:1''
   \<and> entityByField ''user'' ''email'' ''john@test.com'' \<noteq> ''user:field:email:john@test.com''"
  by (simp add: entityById_def entityByField_def)

section \<open>Key derivation: collisions between access kinds\<close>

lemma split_at_colon:
  assumes "colon_free a" and "colon_free c" and "a @ '':'' @ b = c @ '':'' @ d"
  shows "a = c \<and> b = d"
  using assms
proof (induction a arbitrary: c)
  case Nil
  then show ?case by (cases c) (auto simp: colon_free_def)
next
  case (Cons x a)
  then show ?case by (cases c) (auto simp: colon_free_def)
qed

lemma colon_free_append_colon: "\<not> colon_free (a @ '':'' @ b)"
  by (simp add: colon_free_def)

subsection \<open>A list key is the join of its segments, and the join can be undone\<close>

lemma colon_free_join:
  assumes "\<forall>x \<in> set xs. colon_free x" and "length xs \<le> 1"
  shows "colon_free (join '':'' xs)"
proof (cases xs)
  case Nil
  then show ?thesis by (simp add: colon_free_def)
next
  case (Cons x r)
  with assms show ?thesis by (cases r) simp_all
qed

lemma join_inj:
  assumes "xs \<noteq> []" and "ys \<noteq> []"
    and "\<forall>x \<in> set xs. colon_free x" and "\<forall>y \<in> set ys. colon_free y"
    and "join '':'' xs = join '':'' ys"
  shows "xs = ys"
  using assms
proof (induction xs arbitrary: ys)
  case Nil
  then show ?case by simp
next
  case (Cons x xs)
  from Cons.prems(2) obtain y ys' where ys: "ys = y # ys'" by (cases ys) auto
  have cx: "colon_free x" and cy: "colon_free y"
    using Cons.prems(3,4) ys by simp_all
  show ?case
  proof (cases xs)
    case xn: Nil
    show ?thesis
    proof (cases ys')
      case Nil
      with xn ys Cons.prems(5) show ?thesis by simp
    next
      case (Cons b bs)
      with xn ys Cons.prems(5) have "x = y @ '':'' @ join '':'' (b # bs)" by simp
      with cx colon_free_append_colon show ?thesis by metis
    qed
  next
    case xc: (Cons a as)
    show ?thesis
    proof (cases ys')
      case Nil
      with xc ys Cons.prems(5) have "y = x @ '':'' @ join '':'' (a # as)" by simp
      with cy colon_free_append_colon show ?thesis by metis
    next
      case yc: (Cons b bs)
      from xc yc ys Cons.prems(5)
      have "x @ '':'' @ join '':'' xs = y @ '':'' @ join '':'' ys'" by simp
      from split_at_colon [OF cx cy this]
      have e: "x = y" and j: "join '':'' xs = join '':'' ys'" by simp_all
      have "xs = ys'"
        using xc yc Cons.prems(3,4) ys j by (intro Cons.IH) simp_all
      with e ys show ?thesis by simp
    qed
  qed
qed

lemma segments_inj: "segments xs = segments ys \<Longrightarrow> xs = ys"
proof (induction xs arbitrary: ys)
  case Nil
  then show ?case by (cases ys) (simp_all add: segments_def)
next
  case (Cons x xs)
  then show ?case
    by (cases ys) (auto simp: segments_def prod_eq_iff)
qed

lemma push_filters_rendered: "push_filters f ks [] = segments (rendered f ks)"
proof (induction ks)
  case Nil
  show ?case by (simp add: segments_def)
next
  case (Cons k ks)
  show ?case
  proof (cases "\<exists>v. map_of f k = Some v \<and> v \<noteq> PUndefined \<and> v \<noteq> PNull")
    case True
    then obtain v where v: "map_of f k = Some v" "v \<noteq> PUndefined" "v \<noteq> PNull" by blast
    then have "push_filters f (k # ks) [] = [k, String_of v] @ push_filters f ks []"
      using push_filters_acc [of f ks "[k, String_of v]"] by simp
    with v Cons.IH show ?thesis by (simp add: segments_def)
  next
    case False
    then have "push_filters f (k # ks) [] = push_filters f ks []"
      by (auto split: option.splits)
    moreover from False have "rendered f (k # ks) = rendered f ks"
      by (auto split: option.splits)
    ultimately show ?thesis using Cons.IH by simp
  qed
qed

lemma rendered_mem:
  "p \<in> set (rendered f ks) \<Longrightarrow> \<exists>v. (fst p, v) \<in> set f \<and> snd p = String_of v"
proof (induction ks)
  case Nil
  then show ?case by simp
next
  case (Cons k ks)
  show ?case
  proof (cases "\<exists>v. map_of f k = Some v \<and> v \<noteq> PUndefined \<and> v \<noteq> PNull")
    case True
    then obtain v where v: "map_of f k = Some v" "v \<noteq> PUndefined" "v \<noteq> PNull" by blast
    then have m: "(k, v) \<in> set f" by (simp add: map_of_SomeD)
    from v Cons.prems have "p = (k, String_of v) \<or> p \<in> set (rendered f ks)" by simp
    then show ?thesis
    proof
      assume "p = (k, String_of v)"
      with m show ?thesis by auto
    next
      assume "p \<in> set (rendered f ks)"
      then show ?thesis by (rule Cons.IH)
    qed
  next
    case False
    then have "rendered f (k # ks) = rendered f ks"
      by (auto split: option.splits)
    with Cons show ?thesis by simp
  qed
qed

lemma push_pagination_segments:
  "push_pagination pagination parts =
     parts @ pagination_segments (effective_num (opt_page pagination))
               (effective_num (opt_limit pagination))"
  by (cases "opt_page pagination"; cases "opt_limit pagination")
     (auto simp: push_pagination_def pagination_segments_def effective_num_def truthy_num_def
        num_text_def Let_def)

lemma entityList_segments:
  "entityList entityType pagination fs =
     join '':'' ([entityType, ''list'']
        @ pagination_segments (effective_num (opt_page pagination))
            (effective_num (opt_limit pagination))
        @ segments (rendered_filters fs))"
proof -
  have p: "push_pagination pagination [entityType, ''list''] = [entityType, ''list'']
        @ pagination_segments (effective_num (opt_page pagination))
            (effective_num (opt_limit pagination))"
    by (rule push_pagination_segments)
  show ?thesis
  proof (cases fs)
    case None
    then show ?thesis
      by (simp del: join.simps add: entityList_def p rendered_filters_def segments_def)
  next
    case (Some f)
    show ?thesis
    proof (cases "length (Object_keys f) > 0")
      case True
      with Some show ?thesis
        using push_filters_acc [of f "sort (Object_keys f)"
            "push_pagination pagination [entityType, ''list'']"]
        by (simp del: join.simps add: entityList_def Let_def p rendered_filters_def
            push_filters_rendered)
    next
      case False
      then have "rendered f (sort (Object_keys f)) = []" by simp
      with Some False show ?thesis
        by (simp del: join.simps add: entityList_def Let_def p rendered_filters_def segments_def)
    qed
  qed
qed

lemma pagination_segments_colon_free:
  "\<forall>x \<in> set (pagination_segments pg lm). colon_free x"
proof -
  have "colon_free ''page''" "colon_free ''limit''" "colon_free ''all''"
    by (simp_all add: colon_free_def)
  then show ?thesis
    by (auto simp: pagination_segments_def Number_toString_colon_free split: option.splits)
qed

lemma rendered_filters_plain:
  assumes "plain_filters fs" and "p \<in> set (rendered_filters fs)"
  shows "colon_free (fst p) \<and> colon_free (snd p) \<and> fst p \<noteq> ''limit''"
proof (cases fs)
  case None
  with assms(2) show ?thesis by (simp add: rendered_filters_def)
next
  case (Some f)
  with assms(2) obtain v where "(fst p, v) \<in> set f" "snd p = String_of v"
    using rendered_mem by (fastforce simp: rendered_filters_def)
  with assms(1) Some show ?thesis
    by (fastforce simp: plain_filters_def)
qed

lemma segments_colon_free:
  assumes "plain_filters fs"
  shows "\<forall>x \<in> set (segments (rendered_filters fs)). colon_free x"
  using rendered_filters_plain [OF assms] by (auto simp: segments_def)

lemma segments_not_limit:
  assumes "plain_filters fs"
  shows "segments (rendered_filters fs) \<noteq> ''limit'' # rest"
proof (cases "rendered_filters fs")
  case Nil
  then show ?thesis by (simp add: segments_def)
next
  case (Cons p ps)
  then have "p \<in> set (rendered_filters fs)" by simp
  from rendered_filters_plain [OF assms this] have "fst p \<noteq> ''limit''" by simp
  with Cons show ?thesis by (simp add: segments_def)
qed

lemma effective_num_truthy: "effective_num x = Some a \<Longrightarrow> truthy_jsnum a"
  by (auto simp: effective_num_def truthy_num_def split: if_splits option.splits)

lemma pagination_segments_inj:
  assumes "plain_filters fs1" and "plain_filters fs2"
    and "pagination_segments (effective_num p1) (effective_num l1) @ segments (rendered_filters fs1)
       = pagination_segments (effective_num p2) (effective_num l2) @ segments (rendered_filters fs2)"
  shows "effective_num p1 = effective_num p2 \<and> effective_num l1 = effective_num l2
       \<and> segments (rendered_filters fs1) = segments (rendered_filters fs2)"
proof -
  note n1 = segments_not_limit [OF assms(1)] and n2 = segments_not_limit [OF assms(2)]
  note m1 = n1 [THEN not_sym] and m2 = n2 [THEN not_sym]
  have inj: "\<And>x a y b. effective_num x = Some a \<Longrightarrow> effective_num y = Some b
      \<Longrightarrow> Number_toString a = Number_toString b \<Longrightarrow> a = b"
    using effective_num_truthy Number_toString_inj by blast
  show ?thesis
  proof (cases "effective_num p1"; cases "effective_num l1";
         cases "effective_num p2"; cases "effective_num l2")
  qed (use assms(3) n1 n2 m1 m2 inj in \<open>auto simp: pagination_segments_def\<close>)
qed

text \<open>
  C7 (as amended). For entity types, ids and field names without a colon, and a field
  name other than \<open>list\<close>: a by-id key, a by-field key and a list key are pairwise
  different, equal by-id keys have the same entity type and id, and equal by-field keys
  have the same entity type, field and value. For list keys whose filter names and filter
  value texts have no colon either, with no filter named \<open>limit\<close>: equal list keys have the
  same entity type, the same truthy page, the same truthy limit and the same filters that
  are neither \<open>undefined\<close> nor \<open>null\<close>, by name and by the text of the value.
\<close>

theorem keys_distinct_across_kinds:
  assumes "colon_free e1" and "colon_free e2"
    and "colon_free (id_text i)" and "colon_free field" and "field \<noteq> ''list''"
  shows "entityById e1 i \<noteq> entityByField e2 field v
       \<and> entityById e1 i \<noteq> entityList e2 pagination fs
       \<and> entityByField e1 field v \<noteq> entityList e2 pagination fs
       \<and> (entityById e1 i = entityById e2 i' \<longrightarrow> e1 = e2 \<and> id_text i = id_text i')
       \<and> (colon_free field' \<and> entityByField e1 field v = entityByField e2 field' v'
            \<longrightarrow> e1 = e2 \<and> field = field' \<and> v = v')
       \<and> (plain_filters fs1 \<and> plain_filters fs2
            \<and> entityList e1 p1 fs1 = entityList e2 p2 fs2
            \<longrightarrow> e1 = e2
              \<and> effective_num (opt_page p1) = effective_num (opt_page p2)
              \<and> effective_num (opt_limit p1) = effective_num (opt_limit p2)
              \<and> rendered_filters fs1 = rendered_filters fs2)"
proof (intro conjI impI)
  show "entityById e1 i \<noteq> entityByField e2 field v"
  proof
    assume "entityById e1 i = entityByField e2 field v"
    then have "e1 @ '':'' @ id_text i = e2 @ '':'' @ (field @ '':'' @ v)"
      by (simp add: entityById_def entityByField_def)
    from split_at_colon [OF assms(1,2) this] have "id_text i = field @ '':'' @ v" by simp
    with assms(3) colon_free_append_colon show False by metis
  qed
next
  obtain rest where l: "entityList e2 pagination fs = e2 @ '':list:'' @ rest"
    using entityList_shape by blast
  show "entityById e1 i \<noteq> entityList e2 pagination fs"
  proof
    assume "entityById e1 i = entityList e2 pagination fs"
    then have "e1 @ '':'' @ id_text i = e2 @ '':'' @ (''list'' @ '':'' @ rest)"
      using l by (simp add: entityById_def)
    from split_at_colon [OF assms(1,2) this] have "id_text i = ''list'' @ '':'' @ rest" by simp
    with assms(3) colon_free_append_colon show False by metis
  qed
  show "entityByField e1 field v \<noteq> entityList e2 pagination fs"
  proof
    assume "entityByField e1 field v = entityList e2 pagination fs"
    then have "e1 @ '':'' @ (field @ '':'' @ v) = e2 @ '':'' @ (''list'' @ '':'' @ rest)"
      using l by (simp add: entityByField_def)
    from split_at_colon [OF assms(1,2) this]
    have "field @ '':'' @ v = ''list'' @ '':'' @ rest" by simp
    moreover have "colon_free ''list''" by (simp add: colon_free_def)
    ultimately have "field = ''list''"
      using split_at_colon [OF assms(4)] by blast
    with assms(5) show False by simp
  qed
next
  assume "entityById e1 i = entityById e2 i'"
  then have "e1 @ '':'' @ id_text i = e2 @ '':'' @ id_text i'"
    by (simp add: entityById_def)
  from split_at_colon [OF assms(1,2) this] show "e1 = e2" and "id_text i = id_text i'"
    by simp_all
next
  assume a: "colon_free field' \<and> entityByField e1 field v = entityByField e2 field' v'"
  then have "e1 @ '':'' @ (field @ '':'' @ v) = e2 @ '':'' @ (field' @ '':'' @ v')"
    by (simp add: entityByField_def)
  from split_at_colon [OF assms(1,2) this]
  have e: "e1 = e2" and "field @ '':'' @ v = field' @ '':'' @ v'" by simp_all
  from split_at_colon [OF assms(4) _ this(2)] a have "field = field' \<and> v = v'" by blast
  with e show "e1 = e2" and "field = field'" and "v = v'" by simp_all
next
  assume a: "plain_filters fs1 \<and> plain_filters fs2
            \<and> entityList e1 p1 fs1 = entityList e2 p2 fs2"
  define s1 where "s1 = pagination_segments (effective_num (opt_page p1))
      (effective_num (opt_limit p1)) @ segments (rendered_filters fs1)"
  define s2 where "s2 = pagination_segments (effective_num (opt_page p2))
      (effective_num (opt_limit p2)) @ segments (rendered_filters fs2)"
  have l: "colon_free ''list''" by (simp add: colon_free_def)
  have c1: "\<forall>x \<in> set ([e1, ''list''] @ s1). colon_free x"
    using assms(1) l a pagination_segments_colon_free segments_colon_free
    by (auto simp: s1_def)
  have c2: "\<forall>x \<in> set ([e2, ''list''] @ s2). colon_free x"
    using assms(2) l a pagination_segments_colon_free segments_colon_free
    by (auto simp: s2_def)
  have "join '':'' ([e1, ''list''] @ s1) = join '':'' ([e2, ''list''] @ s2)"
    using a by (simp only: entityList_segments s1_def s2_def)
  then have "[e1, ''list''] @ s1 = [e2, ''list''] @ s2"
    using c1 c2 by (intro join_inj) simp_all
  then have e: "e1 = e2" and s: "s1 = s2" by simp_all
  from pagination_segments_inj [OF _ _ s [unfolded s1_def s2_def]] a
  have r: "effective_num (opt_page p1) = effective_num (opt_page p2)
       \<and> effective_num (opt_limit p1) = effective_num (opt_limit p2)
       \<and> segments (rendered_filters fs1) = segments (rendered_filters fs2)"
    by blast
  show "e1 = e2" by (rule e)
  show "effective_num (opt_page p1) = effective_num (opt_page p2)" using r by simp
  show "effective_num (opt_limit p1) = effective_num (opt_limit p2)" using r by simp
  show "rendered_filters fs1 = rendered_filters fs2"
    using r by (intro segments_inj) simp
qed

theorem keys_distinct_across_kinds_witness:
  "colon_free ''user'' \<and> colon_free ''users'' \<and> colon_free (id_text (StrId ''1''))
   \<and> colon_free ''email'' \<and> ''email'' \<noteq> ''list''
   \<and> entityById ''user'' (StrId ''1'') \<noteq> entityByField ''users'' ''email'' ''john@test.com''
   \<and> entityById ''user'' (StrId ''1'') \<noteq> entityList ''users'' None None
   \<and> entityByField ''user'' ''email'' ''john@test.com'' \<noteq> entityList ''users'' None None
   \<and> plain_filters (Some [(''is_active'', PBool True)])
   \<and> effective_num (opt_page (Some \<lparr>page = Some (IntNum 1), limit = Some (IntNum 10)\<rparr>))
       \<noteq> effective_num (opt_page (Some \<lparr>page = Some (IntNum 2), limit = Some (IntNum 10)\<rparr>))
   \<and> entityList ''users'' (Some \<lparr>page = Some (IntNum 1), limit = Some (IntNum 10)\<rparr>)
         (Some [(''is_active'', PBool True)])
       \<noteq> entityList ''users'' (Some \<lparr>page = Some (IntNum 2), limit = Some (IntNum 10)\<rparr>)
         (Some [(''is_active'', PBool True)])"
proof -
  have h: "colon_free ''user''" "colon_free ''users''" "colon_free (id_text (StrId ''1''))"
    "colon_free ''email''" "''email'' \<noteq> ''list''"
    by (simp_all add: colon_free_def)
  have p: "plain_filters (Some [(''is_active'', PBool True)])"
    by (simp add: plain_filters_def colon_free_def)
  have d: "effective_num (opt_page (Some \<lparr>page = Some (IntNum 1), limit = Some (IntNum 10)\<rparr>))
       \<noteq> effective_num (opt_page (Some \<lparr>page = Some (IntNum 2), limit = Some (IntNum 10)\<rparr>))"
    by (simp add: effective_num_def opt_page_def truthy_num_def)
  note T = keys_distinct_across_kinds [OF h(2) h(2) h(3,4,5),
      where ?fs1.0 = "Some [(''is_active'', PBool True)]"
        and ?fs2.0 = "Some [(''is_active'', PBool True)]"
        and ?p1.0 = "Some \<lparr>page = Some (IntNum 1), limit = Some (IntNum 10)\<rparr>"
        and ?p2.0 = "Some \<lparr>page = Some (IntNum 2), limit = Some (IntNum 10)\<rparr>"]
  have "entityList ''users'' (Some \<lparr>page = Some (IntNum 1), limit = Some (IntNum 10)\<rparr>)
         (Some [(''is_active'', PBool True)])
       \<noteq> entityList ''users'' (Some \<lparr>page = Some (IntNum 2), limit = Some (IntNum 10)\<rparr>)
         (Some [(''is_active'', PBool True)])"
    using p d T by blast
  then show ?thesis
    using h p d keys_distinct_across_kinds [OF h, of "''john@test.com''" None None]
    by simp
qed

text \<open>
  The claim as stated, for arbitrary descriptors, fails. An id with a colon makes a by-id
  key equal to a by-field key, and to a list key; the field \<open>list\<close> with the value \<open>all\<close>
  gives the key of the whole list. Among list keys: page 2 with a filter \<open>limit\<close> of 5 has
  the key of page 2 with limit 5; a filter value with colons has the key of two filters;
  the filter values \<open>1\<close> and \<open>'1'\<close> have one key; a filter that is \<open>null\<close> has the key of
  no filter; and page 0 has the key of no page. A colon in the entity type moves the
  border between entity type and id, and the id \<open>1\<close> has the key of the id \<open>'1'\<close>. A
  colon in a field name moves the border between field and value, and a filter name with
  colons has the key of two filters.
\<close>

theorem keys_collide_counterexample:
  "entityById ''user'' (StrId ''email:john@test.com'')
     = entityByField ''user'' ''email'' ''john@test.com''
   \<and> entityById ''users'' (StrId ''list:all'') = entityList ''users'' None None
   \<and> entityByField ''users'' ''list'' ''all'' = entityList ''users'' None None
   \<and> entityList ''users'' (Some \<lparr>page = Some (IntNum 2), limit = None\<rparr>)
         (Some [(''limit'', PNum (IntNum 5))])
       = entityList ''users'' (Some \<lparr>page = Some (IntNum 2), limit = Some (IntNum 5)\<rparr>) None
   \<and> entityList ''users'' None (Some [(''a'', PStr ''x:b:y'')])
       = entityList ''users'' None (Some [(''a'', PStr ''x''), (''b'', PStr ''y'')])
   \<and> entityList ''users'' None (Some [(''a'', PNum (IntNum 1))])
       = entityList ''users'' None (Some [(''a'', PStr ''1'')])
   \<and> entityList ''users'' None (Some [(''a'', PNull)]) = entityList ''users'' None None
   \<and> entityList ''users'' (Some \<lparr>page = Some (IntNum 0), limit = Some (IntNum 10)\<rparr>) None
       = entityList ''users'' (Some \<lparr>page = None, limit = Some (IntNum 10)\<rparr>) None
   \<and> entityById ''a:b'' (StrId ''c'') = entityById ''a'' (StrId ''b:c'')
   \<and> entityById ''user'' (NumId (IntNum 1)) = entityById ''user'' (StrId ''1'')
   \<and> entityByField ''user'' ''a:b'' ''c'' = entityByField ''user'' ''a'' ''b:c''
   \<and> entityList ''users'' None (Some [(''a:b:c'', PStr ''d'')])
       = entityList ''users'' None (Some [(''a'', PStr ''b''), (''c'', PStr ''d'')])"
  by code_simp

section \<open>The backend client: degradation\<close>

lemma cache_get_default:
  assumes "\<not> isReady svc \<or> (\<exists>e. client_get r (getPrefixedKey svc key) = Inl e)
           \<or> (\<exists>data e. client_get r (getPrefixedKey svc key) = Inr (Some data)
                 \<and> JSON_parse data = Inl e)"
  shows "cache_get svc r key = Inr JNull"
  using assms by (auto simp: cache_get_def isReady_def split: sum.splits option.splits)

lemma cache_set_default:
  assumes "\<not> isReady svc
           \<or> (\<exists>e. client_setEx r (getPrefixedKey svc key) (effective_ttl env ttlSeconds)
                   (JSON_stringify v) = Inl e)"
  shows "cache_set svc env r key v ttlSeconds = (Inr False, r)"
  using assms by (auto simp: cache_set_def isReady_def Let_def split: sum.splits)

lemma cache_delete_default:
  assumes "\<not> isReady svc \<or> (\<exists>e. client_del r [getPrefixedKey svc key] = Inl e)"
  shows "cache_delete svc r key = (Inr False, r)"
  using assms by (auto simp: cache_delete_def isReady_def split: sum.splits)

lemma cache_deletePattern_default:
  assumes "\<not> isReady svc \<or> (\<exists>e. client_keys r (getPrefixedKey svc pattern) = Inl e)
           \<or> (\<exists>ks e. client_keys r (getPrefixedKey svc pattern) = Inr ks \<and> client_del r ks = Inl e)"
  shows "cache_deletePattern svc r pattern = (Inr 0, r)"
  using assms by (auto simp: cache_deletePattern_def isReady_def split: sum.splits)

lemma cache_exists_default:
  assumes "\<not> isReady svc \<or> (\<exists>e. client_exists r (getPrefixedKey svc key) = Inl e)"
  shows "cache_exists svc r key = Inr False"
  using assms by (auto simp: cache_exists_def isReady_def split: sum.splits)

lemma cache_flush_default:
  assumes "\<not> isReady svc \<or> (\<exists>e. client_flushDb r = Inl e)"
  shows "cache_flush svc r = (Inr False, r)"
  using assms by (auto simp: cache_flush_def isReady_def split: sum.splits)

lemma cache_get_no_throw: "\<exists>v. cache_get svc r key = Inr v"
  by (auto simp: cache_get_def split: sum.splits option.splits)

lemma cache_set_no_throw: "\<exists>b. fst (cache_set svc env r key v ttlSeconds) = Inr b"
  by (auto simp: cache_set_def Let_def split: sum.splits)

lemma cache_delete_no_throw: "\<exists>b. fst (cache_delete svc r key) = Inr b"
  by (auto simp: cache_delete_def split: sum.splits prod.splits)

lemma cache_deletePattern_no_throw: "\<exists>n. fst (cache_deletePattern svc r pattern) = Inr n"
  by (auto simp: cache_deletePattern_def split: sum.splits prod.splits)

lemma cache_exists_no_throw: "\<exists>b. cache_exists svc r key = Inr b"
  by (auto simp: cache_exists_def split: sum.splits)

lemma cache_flush_no_throw: "\<exists>b. fst (cache_flush svc r) = Inr b"
  by (auto simp: cache_flush_def split: sum.splits)

lemma legacy_get_default:
  assumes "\<not> isReady svc \<or> (\<exists>e. client_get r key = Inl e)
           \<or> (\<exists>data e. client_get r key = Inr (Some data) \<and> JSON_parse data = Inl e)"
  shows "legacy_get svc r key = Inr JNull"
  using assms by (auto simp: legacy_get_def isReady_def split: sum.splits option.splits)

lemma legacy_set_default:
  assumes "\<not> isReady svc
           \<or> (\<exists>e. client_setEx r key (effective_ttl env ttlSeconds) (JSON_stringify v) = Inl e)"
  shows "legacy_set svc env r key v ttlSeconds = (Inr False, r)"
  using assms by (auto simp: legacy_set_def isReady_def Let_def split: sum.splits)

lemma legacy_delete_default:
  assumes "\<not> isReady svc \<or> (\<exists>e. client_del r [key] = Inl e)"
  shows "legacy_delete svc r key = (Inr False, r)"
  using assms by (auto simp: legacy_delete_def isReady_def split: sum.splits)

lemma legacy_deletePattern_default:
  assumes "\<not> isReady svc \<or> (\<exists>e. client_keys r pattern = Inl e)
           \<or> (\<exists>ks e. client_keys r pattern = Inr ks \<and> client_del r ks = Inl e)"
  shows "legacy_deletePattern svc r pattern = (Inr 0, r)"
  using assms by (auto simp: legacy_deletePattern_def isReady_def split: sum.splits)

lemma legacy_exists_default:
  assumes "\<not> isReady svc \<or> (\<exists>e. client_exists r key = Inl e)"
  shows "legacy_exists svc r key = Inr False"
  using assms by (auto simp: legacy_exists_def isReady_def split: sum.splits)

lemma legacy_flush_default:
  assumes "\<not> isReady svc \<or> (\<exists>e. client_flushDb r = Inl e)"
  shows "legacy_flush svc r = (Inr False, r)"
  using assms by (auto simp: legacy_flush_def isReady_def split: sum.splits)

lemma legacy_no_throw:
  "\<exists>v. legacy_get svc r key = Inr v"
  "\<exists>b. fst (legacy_set svc env r key v ttlSeconds) = Inr b"
  "\<exists>b. fst (legacy_delete svc r key) = Inr b"
  "\<exists>n. fst (legacy_deletePattern svc r pattern) = Inr n"
  "\<exists>b. legacy_exists svc r key = Inr b"
  "\<exists>b. fst (legacy_flush svc r) = Inr b"
  by (auto simp: legacy_get_def legacy_set_def legacy_delete_def legacy_deletePattern_def
      legacy_exists_def legacy_flush_def Let_def split: sum.splits option.splits prod.splits)

text \<open>
  C2. For every key, value and TTL: when the service is not connected, or the client call
  an operation makes throws (or, in \<open>get\<close>, the parse of what was read throws), the
  operation resolves to its safe default and leaves the backend as it was: \<open>get\<close> to \<open>null\<close>, \<open>set\<close>, \<open>delete\<close>, \<open>exists\<close> and \<open>flush\<close> to
  \<open>false\<close>, \<open>deletePattern\<close> to 0. In every state each operation resolves: none rejects.
  Both versions of the service, with and without the key prefix, behave so.
\<close>

theorem cache_operations_degrade:
  "((\<not> isReady svc \<or> (\<exists>e. client_get r (getPrefixedKey svc key) = Inl e)
        \<or> (\<exists>data e. client_get r (getPrefixedKey svc key) = Inr (Some data)
              \<and> JSON_parse data = Inl e))
      \<longrightarrow> cache_get svc r key = Inr JNull)
   \<and> ((\<not> isReady svc
        \<or> (\<exists>e. client_setEx r (getPrefixedKey svc key) (effective_ttl env ttlSeconds)
                (JSON_stringify v) = Inl e))
      \<longrightarrow> cache_set svc env r key v ttlSeconds = (Inr False, r))
   \<and> ((\<not> isReady svc \<or> (\<exists>e. client_del r [getPrefixedKey svc key] = Inl e))
      \<longrightarrow> cache_delete svc r key = (Inr False, r))
   \<and> ((\<not> isReady svc \<or> (\<exists>e. client_keys r (getPrefixedKey svc pattern) = Inl e)
        \<or> (\<exists>ks e. client_keys r (getPrefixedKey svc pattern) = Inr ks \<and> client_del r ks = Inl e))
      \<longrightarrow> cache_deletePattern svc r pattern = (Inr 0, r))
   \<and> ((\<not> isReady svc \<or> (\<exists>e. client_exists r (getPrefixedKey svc key) = Inl e))
      \<longrightarrow> cache_exists svc r key = Inr False)
   \<and> ((\<not> isReady svc \<or> (\<exists>e. client_flushDb r = Inl e))
      \<longrightarrow> cache_flush svc r = (Inr False, r))
   \<and> (\<exists>x. cache_get svc r key = Inr x)
   \<and> (\<exists>b. fst (cache_set svc env r key v ttlSeconds) = Inr b)
   \<and> (\<exists>b. fst (cache_delete svc r key) = Inr b)
   \<and> (\<exists>n. fst (cache_deletePattern svc r pattern) = Inr n)
   \<and> (\<exists>b. cache_exists svc r key = Inr b)
   \<and> (\<exists>b. fst (cache_flush svc r) = Inr b)
   \<and> ((\<not> isReady svc \<or> (\<exists>e. client_get r key = Inl e)
        \<or> (\<exists>data e. client_get r key = Inr (Some data) \<and> JSON_parse data = Inl e))
      \<longrightarrow> legacy_get svc r key = Inr JNull)
   \<and> ((\<not> isReady svc
        \<or> (\<exists>e. client_setEx r key (effective_ttl env ttlSeconds) (JSON_stringify v) = Inl e))
      \<longrightarrow> legacy_set svc env r key v ttlSeconds = (Inr False, r))
   \<and> ((\<not> isReady svc \<or> (\<exists>e. client_del r [key] = Inl e))
      \<longrightarrow> legacy_delete svc r key = (Inr False, r))
   \<and> ((\<not> isReady svc \<or> (\<exists>e. client_keys r pattern = Inl e)
        \<or> (\<exists>ks e. client_keys r pattern = Inr ks \<and> client_del r ks = Inl e))
      \<longrightarrow> legacy_deletePattern svc r pattern = (Inr 0, r))
   \<and> ((\<not> isReady svc \<or> (\<exists>e. client_exists r key = Inl e))
      \<longrightarrow> legacy_exists svc r key = Inr False)
   \<and> ((\<not> isReady svc \<or> (\<exists>e. client_flushDb r = Inl e))
      \<longrightarrow> legacy_flush svc r = (Inr False, r))
   \<and> (\<exists>x. legacy_get svc r key = Inr x)
   \<and> (\<exists>b. fst (legacy_set svc env r key v ttlSeconds) = Inr b)
   \<and> (\<exists>b. fst (legacy_delete svc r key) = Inr b)
   \<and> (\<exists>n. fst (legacy_deletePattern svc r pattern) = Inr n)
   \<and> (\<exists>b. legacy_exists svc r key = Inr b)
   \<and> (\<exists>b. fst (legacy_flush svc r) = Inr b)"
proof -
  note d = cache_get_default cache_set_default cache_delete_default
    cache_deletePattern_default cache_exists_default cache_flush_default
  note n = cache_get_no_throw cache_set_no_throw cache_delete_no_throw
    cache_deletePattern_no_throw cache_exists_no_throw cache_flush_no_throw
  note ld = legacy_get_default legacy_set_default legacy_delete_default
    legacy_deletePattern_default legacy_exists_default legacy_flush_default
  show ?thesis
    by (intro conjI impI d ld n legacy_no_throw) blast+
qed

theorem cache_operations_degrade_witness:
  "\<not> isReady svc_down
   \<and> cache_get svc_down redis_sample ''user:1'' = Inr JNull
   \<and> cache_set svc_down env_default redis_sample ''user:1'' john_json (Some 900)
       = (Inr False, redis_sample)
   \<and> cache_delete svc_down redis_sample ''user:1'' = (Inr False, redis_sample)
   \<and> cache_deletePattern svc_down redis_sample ''users:list:*'' = (Inr 0, redis_sample)
   \<and> cache_exists svc_down redis_sample ''user:1'' = Inr False
   \<and> cache_flush svc_down redis_sample = (Inr False, redis_sample)
   \<and> client_get (redis_sample\<lparr>available := False\<rparr>) (getPrefixedKey svc_up ''user:1'')
       = Inl RedisError
   \<and> cache_get svc_up (redis_sample\<lparr>available := False\<rparr>) ''user:1'' = Inr JNull
   \<and> client_get redis_garbage (getPrefixedKey svc_up ''user:1'') = Inr (Some (RawText ''{broken''))
   \<and> JSON_parse (RawText ''{broken'') = Inl SyntaxError
   \<and> cache_get svc_up redis_garbage ''user:1'' = Inr JNull"
proof -
  have h: "\<not> isReady svc_down"
    by (simp add: isReady_def svc_down_def)
  have g: "client_get (redis_sample\<lparr>available := False\<rparr>) (getPrefixedKey svc_up ''user:1'')
       = Inl RedisError"
    by (simp add: client_get_def)
  have p: "client_get redis_garbage (getPrefixedKey svc_up ''user:1'') = Inr (Some (RawText ''{broken''))"
    by (simp add: client_get_def redis_garbage_def redis_lookup_def getPrefixedKey_def svc_up_def)
  have q: "JSON_parse (RawText ''{broken'') = Inl SyntaxError"
    by simp
  have "cache_get svc_up redis_garbage ''user:1'' = Inr JNull"
    using p q cache_operations_degrade [where svc = svc_up and r = redis_garbage
        and key = "''user:1''", THEN conjunct1]
    by blast
  then show ?thesis
    using h g p q
      cache_operations_degrade [where svc = svc_down and r = redis_sample and key = "''user:1''"
        and env = env_default and ttlSeconds = "Some 900" and v = john_json
        and pattern = "''users:list:*''"]
      cache_operations_degrade [where svc = svc_up and r = "redis_sample\<lparr>available := False\<rparr>"
        and key = "''user:1''"]
    by simp
qed

section \<open>The backend client: expiry of what is written\<close>

lemma client_setEx_Inr:
  assumes "client_setEx r k ttl v = Inr r'"
  shows "\<exists>pl. v = Some pl \<and> available r \<and> 0 < ttl
           \<and> r' = r\<lparr>entries := (k, pl, Some ttl) # filter (\<lambda>e. fst e \<noteq> k) (entries r)\<rparr>"
  using assms by (auto simp: client_setEx_def split: option.splits if_splits)

lemma cache_set_True:
  assumes "fst (cache_set svc env r key v ttlSeconds) = Inr True"
  shows "\<exists>pl. JSON_stringify v = Some pl \<and> isReady svc \<and> available r
           \<and> 0 < effective_ttl env ttlSeconds
           \<and> snd (cache_set svc env r key v ttlSeconds)
             = r\<lparr>entries := (getPrefixedKey svc key, pl, Some (effective_ttl env ttlSeconds))
                   # filter (\<lambda>e. fst e \<noteq> getPrefixedKey svc key) (entries r)\<rparr>"
proof -
  from assms obtain r' where
    "client_setEx r (getPrefixedKey svc key) (effective_ttl env ttlSeconds) (JSON_stringify v) = Inr r'"
    and "isReady svc" and "snd (cache_set svc env r key v ttlSeconds) = r'"
    by (auto simp: cache_set_def isReady_def Let_def split: if_splits sum.splits)
  then show ?thesis using client_setEx_Inr by blast
qed


lemma all_expire_filter:
  "all_expire r \<Longrightarrow> all_expire (r\<lparr>entries := filter P (entries r)\<rparr>)"
  by (simp add: all_expire_def)







section \<open>The backend client: what a read returns after a write\<close>

lemma drop_undefined_Some:
  "drop_undefined (map (\<lambda>m. (fst m, Some (snd m))) ms) = ms"
  by (induction ms) auto

lemma drop_undefined_mem:
  "(k, j) \<in> set (drop_undefined ps) \<Longrightarrow> (k, Some j) \<in> set ps"
  by (induction ps rule: drop_undefined.induct) auto

lemma number_toJSON_plain: "json_number n \<Longrightarrow> number_toJSON n = JNum n"
  by (cases n) simp_all

lemma number_toJSON_is_plain: "json_plain (number_toJSON n)"
  by (cases n) simp_all

lemma toJSON_plain: "json_plain v \<Longrightarrow> toJSON v = Some v"
proof (induction v)
  case (JNum n)
  then show ?case by (simp add: number_toJSON_plain)
next
  case (JArr xs)
  then have "map (\<lambda>x. case toJSON x of None \<Rightarrow> JNull | Some j \<Rightarrow> j) xs = xs"
    by (intro map_idI) simp
  then show ?case by simp
next
  case (JObj ms)
  have "\<And>m. m \<in> set ms \<Longrightarrow> toJSON (snd m) = Some (snd m)"
  proof -
    fix m assume m: "m \<in> set ms"
    obtain k w where kw: "m = (k, w)" by (cases m)
    with m JObj.prems have "json_plain w" by auto
    with JObj.IH [of m w] m kw show "toJSON (snd m) = Some (snd m)" by simp
  qed
  then have "map (\<lambda>m. (fst m, toJSON (snd m))) ms = map (\<lambda>m. (fst m, Some (snd m))) ms"
    by (intro map_cong) simp_all
  then show ?case by (simp only: toJSON.simps drop_undefined_Some)
qed simp_all

lemma toJSON_is_plain: "toJSON v = Some j \<Longrightarrow> json_plain j"
proof (induction v arbitrary: j)
  case (JNum n)
  then show ?case using number_toJSON_is_plain [of n] by auto
next
  case (JArr xs)
  have "\<And>x. x \<in> set xs \<Longrightarrow> json_plain (case toJSON x of None \<Rightarrow> JNull | Some j \<Rightarrow> j)"
    using JArr.IH by (auto split: option.splits)
  with JArr.prems show ?case by auto
next
  case (JObj ms)
  have "\<And>k w. (k, w) \<in> set (drop_undefined (map (\<lambda>m. (fst m, toJSON (snd m))) ms))
          \<Longrightarrow> json_plain w"
  proof -
    fix k w
    assume "(k, w) \<in> set (drop_undefined (map (\<lambda>m. (fst m, toJSON (snd m))) ms))"
    then have "(k, Some w) \<in> set (map (\<lambda>m. (fst m, toJSON (snd m))) ms)"
      by (rule drop_undefined_mem)
    then obtain m where m: "m \<in> set ms" "toJSON (snd m) = Some w" by auto
    obtain k' u where ku: "m = (k', u)" by (cases m)
    with m JObj.IH [of m u w] show "json_plain w" by simp
  qed
  with JObj.prems show ?case by auto
qed auto

lemma cache_get_after_set:
  assumes "fst (cache_set svc env r key v ttlSeconds) = Inr True"
    and "entries r' = entries (snd (cache_set svc env r key v ttlSeconds))"
    and "client_get r' (getPrefixedKey svc key) = Inr x"
  shows "\<exists>j. toJSON v = Some j \<and> cache_get svc r' key = Inr j"
proof -
  from cache_set_True [OF assms(1)] obtain pl where
    s: "JSON_stringify v = Some pl" "isReady svc"
    and e: "snd (cache_set svc env r key v ttlSeconds)
       = r\<lparr>entries := (getPrefixedKey svc key, pl, Some (effective_ttl env ttlSeconds))
             # filter (\<lambda>e. fst e \<noteq> getPrefixedKey svc key) (entries r)\<rparr>"
    by blast
  from s(1) obtain j where j: "toJSON v = Some j" "pl = JsonText j"
    by (auto simp: JSON_stringify_def)
  have a: "available r'"
    using assms(3) by (auto simp: client_get_def split: if_splits)
  have "redis_lookup r' (getPrefixedKey svc key)
        = Some (JsonText j, Some (effective_ttl env ttlSeconds))"
    using assms(2) j(2) by (simp add: e redis_lookup_def)
  then have "cache_get svc r' key = Inr j"
    using s(2) a by (auto simp: cache_get_def isReady_def client_get_def)
  with j(1) show ?thesis by blast
qed

text \<open>
  C5 (as amended). When the backend is connected and both calls succeed, that is
  \<open>set(k, v, ttl)\<close> returns true and the read of the \<open>get(k)\<close> that follows does not throw,
  the \<open>get\<close> returns the JSON form of \<open>v\<close>, that is \<open>JSON.parse(JSON.stringify(v))\<close>: a
  plain JSON value that serialises to itself, and \<open>v\<close> itself whenever \<open>v\<close> is plain JSON
  (built from \<open>null\<close>, booleans, finite numbers other than the negative zero, strings,
  arrays and plain objects alone).
\<close>

theorem get_after_set_returns_json_form:
  assumes "fst (cache_set svc env r key v ttlSeconds) = Inr True"
    and "entries r' = entries (snd (cache_set svc env r key v ttlSeconds))"
    and "client_get r' (getPrefixedKey svc key) = Inr x"
  shows "\<exists>j. toJSON v = Some j
             \<and> cache_get svc r' key = Inr j
             \<and> json_plain j \<and> toJSON j = Some j
             \<and> (json_plain v \<longrightarrow> j = v)"
proof -
  from cache_get_after_set [OF assms] obtain j where
    j: "toJSON v = Some j" "cache_get svc r' key = Inr j"
    by blast
  have p: "json_plain j" using j(1) by (rule toJSON_is_plain)
  have "toJSON j = Some j" using p by (rule toJSON_plain)
  moreover have "json_plain v \<longrightarrow> j = v" using j(1) toJSON_plain by fastforce
  ultimately show ?thesis using j p by blast
qed

theorem get_after_set_returns_json_form_witness:
  "fst (cache_set svc_up env_default redis_sample ''user:1'' john_json (Some 900)) = Inr True
   \<and> client_get (snd (cache_set svc_up env_default redis_sample ''user:1'' john_json (Some 900)))
        (getPrefixedKey svc_up ''user:1'') = Inr (Some (JsonText john_json))
   \<and> json_plain john_json
   \<and> cache_get svc_up
        (snd (cache_set svc_up env_default redis_sample ''user:1'' john_json (Some 900)))
        ''user:1'' = Inr john_json"
proof -
  have h: "fst (cache_set svc_up env_default redis_sample ''user:1'' john_json (Some 900))
           = Inr True"
    by code_simp
  have g: "client_get (snd (cache_set svc_up env_default redis_sample ''user:1'' john_json (Some 900)))
        (getPrefixedKey svc_up ''user:1'') = Inr (Some (JsonText john_json))"
    by code_simp
  have p: "json_plain john_json"
    by (simp add: john_json_def)
  from get_after_set_returns_json_form [OF h refl g] p
  have "cache_get svc_up
        (snd (cache_set svc_up env_default redis_sample ''user:1'' john_json (Some 900)))
        ''user:1'' = Inr john_json"
    by auto
  with h g p show ?thesis by (intro conjI)
qed

text \<open>
  The claim as stated, for every value, fails on a value with a \<open>Date\<close> in it, such as a
  user row with its \<open>created_at\<close>: the read returns the date as a string. It fails on
  \<open>NaN\<close> and on an infinity, which are read back as \<open>null\<close>, on the negative zero, read
  back as \<open>0\<close>, and on an \<open>undefined\<close> inside the value, read back as \<open>null\<close> in an array
  and not at all in an object.
\<close>

theorem get_after_set_date_counterexample:
  "fst (cache_set svc_up env_default redis_sample ''user:1'' john_row (Some 900)) = Inr True
   \<and> cache_get svc_up
        (snd (cache_set svc_up env_default redis_sample ''user:1'' john_row (Some 900)))
        ''user:1''
      = Inr (JObj [(''id'', JStr ''1''), (''email'', JStr ''john@test.com''),
                   (''created_at'', JStr ''2025-07-02T15:13:18.000Z'')])
   \<and> JObj [(''id'', JStr ''1''), (''email'', JStr ''john@test.com''),
            (''created_at'', JStr ''2025-07-02T15:13:18.000Z'')] \<noteq> john_row
   \<and> fst (cache_set svc_up env_default redis_sample ''n'' (JNum NaN) (Some 900)) = Inr True
   \<and> cache_get svc_up
        (snd (cache_set svc_up env_default redis_sample ''n'' (JNum NaN) (Some 900))) ''n''
      = Inr JNull
   \<and> fst (cache_set svc_up env_default redis_sample ''n'' (JNum PosInfinity) (Some 900)) = Inr True
   \<and> cache_get svc_up
        (snd (cache_set svc_up env_default redis_sample ''n'' (JNum PosInfinity) (Some 900))) ''n''
      = Inr JNull
   \<and> fst (cache_set svc_up env_default redis_sample ''n'' (JNum NegZero) (Some 900)) = Inr True
   \<and> cache_get svc_up
        (snd (cache_set svc_up env_default redis_sample ''n'' (JNum NegZero) (Some 900))) ''n''
      = Inr (JNum (IntNum 0))
   \<and> fst (cache_set svc_up env_default redis_sample ''n''
             (JObj [(''a'', JUndefined), (''b'', JArr [JUndefined])]) (Some 900)) = Inr True
   \<and> cache_get svc_up
        (snd (cache_set svc_up env_default redis_sample ''n''
                (JObj [(''a'', JUndefined), (''b'', JArr [JUndefined])]) (Some 900))) ''n''
      = Inr (JObj [(''b'', JArr [JNull])])"
  by code_simp

section \<open>The backend client: flush\<close>

text \<open>A flush that succeeds leaves no entry at all, whatever the prefix of the service.\<close>

lemma cache_flush_empties:
  "isReady svc \<Longrightarrow> available r
     \<Longrightarrow> cache_flush svc r = (Inr True, r\<lparr>entries := []\<rparr>)"
  by (auto simp: cache_flush_def client_flushDb_def isReady_def)

text \<open>
  C6. The claim holds that \<open>flush()\<close> leaves the keys of other namespaces unchanged. The
  code, run on a backend that holds the key \<open>billing:user:1\<close> of another namespace beside
  the keys of the service's own prefix \<open>express-api\<close>, removes that key too:
  \<open>flushDb\<close> empties the whole database.
\<close>

theorem flush_removes_other_namespace:
  "fst (cache_flush svc_up redis_sample) = Inr True
   \<and> keyPrefix svc_up = ''express-api''
   \<and> redis_lookup redis_sample ''billing:user:1'' = Some (JsonText (JStr ''invoice''), Some 60)
   \<and> redis_lookup (snd (cache_flush svc_up redis_sample)) ''billing:user:1'' = None
   \<and> entries (snd (cache_flush svc_up redis_sample)) = []"
  by (simp add: cache_flush_def client_flushDb_def svc_up_def redis_sample_def redis_lookup_def)

section \<open>The backend after deletes\<close>

lemma map_of_filter_key:
  "map_of (filter (\<lambda>e. P (fst e)) xs) k = (if P k then map_of xs k else None)"
  by (induction xs) auto

lemma filter_empty_map_of:
  "filter (\<lambda>e. P (fst e)) xs = [] \<Longrightarrow> P k \<Longrightarrow> map_of xs k = None"
  by (induction xs) (auto split: if_splits)

lemma cache_delete_lookup:
  "redis_lookup (snd (cache_delete svc r key)) k =
     (if isReady svc \<and> available r \<and> k = getPrefixedKey svc key then None
      else redis_lookup r k)"
  using map_of_filter_key [of "\<lambda>x. x \<noteq> getPrefixedKey svc key" "entries r" k]
  by (auto simp: cache_delete_def client_del_def isReady_def redis_lookup_def)

lemma cache_delete_available: "available (snd (cache_delete svc r key)) = available r"
  by (auto simp: cache_delete_def client_del_def)

lemma cache_deletePattern_lookup:
  "redis_lookup (snd (cache_deletePattern svc r pattern)) k =
     (if isReady svc \<and> available r \<and> glob (getPrefixedKey svc pattern) k then None
      else redis_lookup r k)"
proof (cases "isReady svc \<and> available r")
  case False
  then show ?thesis
    by (auto simp: cache_deletePattern_def client_keys_def isReady_def)
next
  case True
  define pp where "pp = getPrefixedKey svc pattern"
  define ks where "ks = map fst (filter (\<lambda>e. glob pp (fst e)) (entries r))"
  have k: "client_keys r pp = Inr ks"
    using True by (simp add: client_keys_def ks_def)
  show ?thesis
  proof (cases "ks = []")
    case e: True
    then have "filter (\<lambda>e. glob pp (fst e)) (entries r) = []"
      by (simp add: ks_def)
    then have "glob pp k \<Longrightarrow> map_of (entries r) k = None"
      by (rule filter_empty_map_of)
    moreover have "snd (cache_deletePattern svc r pattern) = r"
      using True k e by (auto simp: cache_deletePattern_def isReady_def pp_def)
    ultimately show ?thesis
      by (auto simp: redis_lookup_def pp_def)
  next
    case ne: False
    have "filter (\<lambda>e. fst e \<notin> set ks) (entries r) = filter (\<lambda>e. \<not> glob pp (fst e)) (entries r)"
      by (rule filter_cong) (auto simp: ks_def)
    then have "snd (cache_deletePattern svc r pattern)
        = r\<lparr>entries := filter (\<lambda>e. \<not> glob pp (fst e)) (entries r)\<rparr>"
      using True k ne
      by (auto simp: cache_deletePattern_def isReady_def pp_def [symmetric] client_del_def)
    then show ?thesis
      using True map_of_filter_key [of "\<lambda>x. \<not> glob pp x" "entries r" k]
      by (simp add: redis_lookup_def pp_def)
  qed
qed

lemma Promise_all_Inr:
  "(\<forall>p \<in> set ps. \<exists>b. p = Inr b) \<Longrightarrow> \<exists>bs. Promise_all ps = Inr bs"
proof (induction ps)
  case Nil
  show ?case by simp
next
  case (Cons p ps)
  then obtain b bs where "p = Inr b" "Promise_all ps = Inr bs" by auto
  then show ?case by simp
qed

lemma invalidateUserCache_fst:
  "\<exists>bs. fst (invalidateUserCache svc r userId oldEmail newEmail) = Inr bs"
proof -
  have "\<And>s k. \<exists>b. fst (cache_delete svc s k) = Inr b"
    by (rule cache_delete_no_throw)
  then show ?thesis
    by (auto simp: invalidateUserCache_def Let_def case_prod_beta
        intro!: Promise_all_Inr split: option.splits)
qed

lemma invalidateUserCache_lookup:
  "redis_lookup (snd (invalidateUserCache svc r userId oldEmail newEmail)) k =
     (if isReady svc \<and> available r
         \<and> (k = getPrefixedKey svc (generateUserKey userId)
            \<or> (\<exists>old. oldEmail = Some old \<and> old \<noteq> []
                  \<and> k = getPrefixedKey svc (generateUserByEmailKey old))
            \<or> (\<exists>new. newEmail = Some new \<and> new \<noteq> [] \<and> newEmail \<noteq> oldEmail
                  \<and> k = getPrefixedKey svc (generateUserByEmailKey new)))
      then None else redis_lookup r k)"
  by (auto simp: invalidateUserCache_def Let_def case_prod_beta cache_delete_lookup
      cache_delete_available split: option.splits)

lemma invalidateUserCache_available:
  "available (snd (invalidateUserCache svc r userId oldEmail newEmail)) = available r"
  by (auto simp: invalidateUserCache_def Let_def case_prod_beta cache_delete_available
      split: option.splits)

lemma invalidateUsersListCache_fst: "\<exists>n. fst (invalidateUsersListCache svc r) = Inr n"
  unfolding invalidateUsersListCache_def by (rule cache_deletePattern_no_throw)

lemma glob_star: "glob ''*'' s"
  by (induction s) auto

lemma glob_literal:
  "glob_free lit \<Longrightarrow> glob (lit @ ps) s = (\<exists>rest. s = lit @ rest \<and> glob ps rest)"
proof (induction lit arbitrary: s)
  case Nil
  show ?case by simp
next
  case (Cons c lit)
  then have c: "c \<noteq> CHR ''*''" "c \<noteq> CHR ''?''" "c \<noteq> CHR 0x5C" and l: "glob_free lit"
    by (auto simp: glob_free_def)
  show ?case
  proof (cases s)
    case Nil
    then show ?thesis using c by simp
  next
    case (Cons d ds)
    then show ?thesis using c Cons.IH [OF l, of ds] by auto
  qed
qed

lemma glob_users_list:
  assumes "glob_free (keyPrefix svc)"
  shows "glob (getPrefixedKey svc ''users:list:*'') k
         = (\<exists>rest. k = keyPrefix svc @ '':users:list:'' @ rest)"
proof -
  have "glob_free (keyPrefix svc @ '':users:list:'')"
    using assms by (auto simp: glob_free_def)
  from glob_literal [OF this, of "''*''" k] glob_star
  show ?thesis by (simp add: getPrefixedKey_def)
qed

text \<open>
  The repository that derives its keys with the generic utility asks for the same pattern
  and the same single-entity keys as the one that uses the legacy generators.
\<close>

lemma entityPattern_users_list:
  "entityPattern ''users'' (Some ''list:*'') = ''users:list:*''"
  by (simp add: entityPattern_def)

section \<open>The repository: invalidation after a mutation\<close>

lemma repo_update_success:
  assumes "repo_update um svc db r i data = (Inr result, db', r')"
  shows "\<exists>cur. prisma_findUnique um db i = Inr cur
           \<and> prisma_update um db i data = Inr (result, db')
           \<and> r' = snd (invalidateUsersListCache svc
                    (snd (invalidateUserCache svc r i (map_option email cur)
                       (Some (email result)))))"
  using assms
  by (auto simp: repo_update_def split: sum.splits prod.splits)

lemma update_lookup:
  assumes "repo_update um svc db r i data = (Inr result, db', r')"
    and "isReady svc" and "available r"
  shows "\<exists>cur. prisma_findUnique um db i = Inr cur
           \<and> prisma_update um db i data = Inr (result, db')
           \<and> (\<forall>k. redis_lookup r' k =
                 (if k = getPrefixedKey svc (generateUserKey i)
                     \<or> (\<exists>old. map_option email cur = Some old \<and> old \<noteq> []
                           \<and> k = getPrefixedKey svc (generateUserByEmailKey old))
                     \<or> (email result \<noteq> [] \<and> Some (email result) \<noteq> map_option email cur
                           \<and> k = getPrefixedKey svc (generateUserByEmailKey (email result)))
                     \<or> glob (getPrefixedKey svc ''users:list:*'') k
                  then None else redis_lookup r k))"
proof -
  from repo_update_success [OF assms(1)] obtain cur where
    c: "prisma_findUnique um db i = Inr cur" "prisma_update um db i data = Inr (result, db')"
    and r': "r' = snd (invalidateUsersListCache svc
                    (snd (invalidateUserCache svc r i (map_option email cur)
                       (Some (email result)))))"
    by blast
  have "\<forall>k. redis_lookup r' k =
                 (if k = getPrefixedKey svc (generateUserKey i)
                     \<or> (\<exists>old. map_option email cur = Some old \<and> old \<noteq> []
                           \<and> k = getPrefixedKey svc (generateUserByEmailKey old))
                     \<or> (email result \<noteq> [] \<and> Some (email result) \<noteq> map_option email cur
                           \<and> k = getPrefixedKey svc (generateUserByEmailKey (email result)))
                     \<or> glob (getPrefixedKey svc ''users:list:*'') k
                  then None else redis_lookup r k)"
    using assms(2,3)
    by (auto simp: r' invalidateUsersListCache_def cache_deletePattern_lookup
        invalidateUserCache_lookup invalidateUserCache_available)
  with c show ?thesis by blast
qed

text \<open>
  C3 (as amended). When the cache is connected and its backend answers, and the key prefix
  has no glob character in it, then after \<open>update(id, data)\<close> completes: the by-id key
  of the user is absent; the by-email key of the previous e-mail and the by-email key of the
  new e-mail are absent, each provided that the e-mail is not the empty string; every key
  of the shape \<open>prefix:users:list:...\<close> is absent; and every other key holds what it held
  before.
\<close>

theorem update_invalidates_user_keys:
  assumes "repo_update um svc db r i data = (Inr result, db', r')"
    and "isReady svc" and "available r" and "glob_free (keyPrefix svc)"
  shows "\<exists>cur. prisma_findUnique um db i = Inr cur
     \<and> redis_lookup r' (getPrefixedKey svc (generateUserKey i)) = None
     \<and> (\<forall>old. map_option email cur = Some old \<and> old \<noteq> []
            \<longrightarrow> redis_lookup r' (getPrefixedKey svc (generateUserByEmailKey old)) = None)
     \<and> (email result \<noteq> []
            \<longrightarrow> redis_lookup r' (getPrefixedKey svc (generateUserByEmailKey (email result))) = None)
     \<and> (\<forall>rest. redis_lookup r' (keyPrefix svc @ '':users:list:'' @ rest) = None)
     \<and> (\<forall>k. k \<noteq> getPrefixedKey svc (generateUserKey i)
             \<and> (\<forall>old. map_option email cur = Some old
                    \<longrightarrow> k \<noteq> getPrefixedKey svc (generateUserByEmailKey old))
             \<and> k \<noteq> getPrefixedKey svc (generateUserByEmailKey (email result))
             \<and> \<not> (\<exists>rest. k = keyPrefix svc @ '':users:list:'' @ rest)
            \<longrightarrow> redis_lookup r' k = redis_lookup r k)"
proof -
  from update_lookup [OF assms(1,2,3)] obtain cur where
    c: "prisma_findUnique um db i = Inr cur"
    and l0: "\<And>k. redis_lookup r' k =
                 (if k = getPrefixedKey svc (generateUserKey i)
                     \<or> (\<exists>old. map_option email cur = Some old \<and> old \<noteq> []
                           \<and> k = getPrefixedKey svc (generateUserByEmailKey old))
                     \<or> (email result \<noteq> [] \<and> Some (email result) \<noteq> map_option email cur
                           \<and> k = getPrefixedKey svc (generateUserByEmailKey (email result)))
                     \<or> glob (getPrefixedKey svc ''users:list:*'') k
                  then None else redis_lookup r k)"
    by blast
  note l = l0 [unfolded glob_users_list [OF assms(4)]]
  have 1: "redis_lookup r' (getPrefixedKey svc (generateUserKey i)) = None"
    by (simp add: l)
  have 2: "\<forall>old. map_option email cur = Some old \<and> old \<noteq> []
            \<longrightarrow> redis_lookup r' (getPrefixedKey svc (generateUserByEmailKey old)) = None"
    by (auto simp: l)
  have 3: "email result \<noteq> []
            \<longrightarrow> redis_lookup r' (getPrefixedKey svc (generateUserByEmailKey (email result))) = None"
  proof (intro impI, cases "Some (email result) = map_option email cur")
    case True
    assume "email result \<noteq> []"
    with True 2 show "redis_lookup r' (getPrefixedKey svc (generateUserByEmailKey (email result))) = None"
      by metis
  next
    case False
    assume "email result \<noteq> []"
    with False show "redis_lookup r' (getPrefixedKey svc (generateUserByEmailKey (email result))) = None"
      by (simp add: l)
  qed
  have 4: "\<forall>rest. redis_lookup r' (keyPrefix svc @ '':users:list:'' @ rest) = None"
    by (auto simp: l)
  have 5: "\<forall>k. k \<noteq> getPrefixedKey svc (generateUserKey i)
             \<and> (\<forall>old. map_option email cur = Some old
                    \<longrightarrow> k \<noteq> getPrefixedKey svc (generateUserByEmailKey old))
             \<and> k \<noteq> getPrefixedKey svc (generateUserByEmailKey (email result))
             \<and> \<not> (\<exists>rest. k = keyPrefix svc @ '':users:list:'' @ rest)
            \<longrightarrow> redis_lookup r' k = redis_lookup r k"
    by (auto simp: l)
  from c 1 2 3 4 5 show ?thesis by blast
qed

theorem update_invalidates_user_keys_witness:
  "repo_update users_table svc_up [john] redis_sample ''1'' change_email
     = (Inr jane, [jane], redis_after_update)
   \<and> isReady svc_up \<and> available redis_sample \<and> glob_free (keyPrefix svc_up)
   \<and> redis_lookup redis_after_update (getPrefixedKey svc_up (generateUserKey ''1'')) = None
   \<and> redis_lookup redis_after_update
        (getPrefixedKey svc_up (generateUserByEmailKey (email jane))) = None
   \<and> (\<forall>rest. redis_lookup redis_after_update (keyPrefix svc_up @ '':users:list:'' @ rest) = None)"
proof -
  have h1: "repo_update users_table svc_up [john] redis_sample ''1'' change_email
     = (Inr jane, [jane], redis_after_update)"
    by code_simp
  have h2: "isReady svc_up"
    by (simp add: isReady_def svc_up_def)
  have h3: "available redis_sample"
    by (simp add: redis_sample_def)
  have h4: "glob_free (keyPrefix svc_up)"
    by (simp add: glob_free_def svc_up_def)
  have h5: "email jane \<noteq> []"
    by (simp add: jane_def)
  from update_invalidates_user_keys [OF h1 h2 h3 h4] obtain cur where
    k0: "prisma_findUnique users_table [john] ''1'' = Inr cur"
    and k1: "redis_lookup redis_after_update (getPrefixedKey svc_up (generateUserKey ''1'')) = None"
    and k3: "email jane \<noteq> [] \<longrightarrow> redis_lookup redis_after_update
        (getPrefixedKey svc_up (generateUserByEmailKey (email jane))) = None"
    and k4: "\<forall>rest. redis_lookup redis_after_update (keyPrefix svc_up @ '':users:list:'' @ rest) = None"
    by (elim exE conjE) (rule that)
  from h1 h2 h3 h4 k1 k3 [rule_format, OF h5] k4 show ?thesis
    by (intro conjI)
qed

text \<open>
  The claim as stated, for every user and in every state of the cache, fails. A user whose
  previous e-mail is the empty string keeps the by-email key of that e-mail after the
  update. With the service disconnected the update completes and deletes nothing. And
  under a prefix with a \<open>*\<close> in it the update deletes a list key of another namespace.
\<close>

theorem update_keeps_keys_counterexample:
  "fst (repo_update users_table svc_up [no_email] redis_stale ''7'' rename_only)
     = Inr (no_email\<lparr>name := ''Jane''\<rparr>)
   \<and> table_findUnique [no_email] ''7'' = Inr (Some no_email)
   \<and> getPrefixedKey svc_up (generateUserByEmailKey (email no_email)) = ''express-api:user:email:''
   \<and> redis_lookup (snd (snd (repo_update users_table svc_up [no_email] redis_stale ''7'' rename_only)))
        ''express-api:user:email:'' = Some (JsonText (JStr ''Nemo''), Some 900)
   \<and> fst (repo_update users_table svc_down [john] redis_sample ''1'' change_email) = Inr jane
   \<and> getPrefixedKey svc_down (generateUserKey ''1'') = ''express-api:user:1''
   \<and> redis_lookup (snd (snd (repo_update users_table svc_down [john] redis_sample ''1'' change_email)))
        ''express-api:user:1'' = Some (JsonText john_json, Some 900)
   \<and> fst (repo_update users_table svc_star [john] redis_shared ''1'' change_email) = Inr jane
   \<and> redis_lookup redis_shared ''apple:users:list:all'' = Some (JsonText (JArr []), Some 300)
   \<and> redis_lookup (snd (snd (repo_update users_table svc_star [john] redis_shared ''1'' change_email)))
        ''apple:users:list:all'' = None"
  by code_simp

section \<open>The repository: a failed mutation leaves the cache alone\<close>

lemma repo_changed_cache:
  "snd (snd (repo_create um svc db r cdata)) \<noteq> r
     \<Longrightarrow> \<exists>res db'. prisma_create um db cdata = Inr (res, db')"
  "snd (snd (repo_update um svc db r i udata)) \<noteq> r
     \<Longrightarrow> \<exists>res db'. prisma_update um db i udata = Inr (res, db')"
  "snd (snd (repo_delete um svc db r i)) \<noteq> r
     \<Longrightarrow> \<exists>res db'. prisma_delete um db i = Inr (res, db')"
  by (auto simp: repo_create_def repo_update_def repo_delete_def split: sum.splits)

text \<open>
  C4. In \<open>create\<close>, \<open>update\<close> and \<open>delete\<close> the cache is invalidated only after the
  mutation of the store of record has succeeded. If the mutation throws (or, in \<open>update\<close>
  and \<open>delete\<close>, the read before it), the operation rejects with that exception and the
  store and the cache are as they were; and whenever the cache has changed the mutation
  has resolved.
\<close>

theorem failed_mutation_leaves_cache:
  "(prisma_create um db cdata = Inl e
      \<longrightarrow> repo_create um svc db r cdata = (Inl e, db, r))
   \<and> (prisma_findUnique um db i = Inl e
      \<longrightarrow> repo_update um svc db r i udata = (Inl e, db, r)
          \<and> repo_delete um svc db r i = (Inl e, db, r))
   \<and> ((\<exists>cur. prisma_findUnique um db i = Inr cur) \<and> prisma_update um db i udata = Inl e
      \<longrightarrow> repo_update um svc db r i udata = (Inl e, db, r))
   \<and> ((\<exists>cur. prisma_findUnique um db i = Inr cur) \<and> prisma_delete um db i = Inl e
      \<longrightarrow> repo_delete um svc db r i = (Inl e, db, r))
   \<and> (snd (snd (repo_create um svc db r cdata)) \<noteq> r
      \<longrightarrow> (\<exists>res db'. prisma_create um db cdata = Inr (res, db')))
   \<and> (snd (snd (repo_update um svc db r i udata)) \<noteq> r
      \<longrightarrow> (\<exists>res db'. prisma_update um db i udata = Inr (res, db')))
   \<and> (snd (snd (repo_delete um svc db r i)) \<noteq> r
      \<longrightarrow> (\<exists>res db'. prisma_delete um db i = Inr (res, db')))"
proof (intro conjI impI)
  assume "prisma_create um db cdata = Inl e"
  then show "repo_create um svc db r cdata = (Inl e, db, r)"
    by (simp add: repo_create_def)
next
  assume a: "prisma_findUnique um db i = Inl e"
  show "repo_update um svc db r i udata = (Inl e, db, r)"
    using a by (simp add: repo_update_def)
  show "repo_delete um svc db r i = (Inl e, db, r)"
    using a by (simp add: repo_delete_def)
next
  assume "(\<exists>cur. prisma_findUnique um db i = Inr cur) \<and> prisma_update um db i udata = Inl e"
  then show "repo_update um svc db r i udata = (Inl e, db, r)"
    by (auto simp: repo_update_def)
next
  assume "(\<exists>cur. prisma_findUnique um db i = Inr cur) \<and> prisma_delete um db i = Inl e"
  then show "repo_delete um svc db r i = (Inl e, db, r)"
    by (auto simp: repo_delete_def)
qed (rule repo_changed_cache; assumption)+

theorem failed_mutation_leaves_cache_witness:
  "table_update [john] ''3'' change_email = Inl (DbError ''P2025'')
   \<and> table_findUnique [john] ''3'' = Inr None
   \<and> repo_update users_table svc_up [john] redis_sample ''3'' change_email
       = (Inl (DbError ''P2025''), [john], redis_sample)
   \<and> table_delete [john] ''3'' = Inl (DbError ''P2025'')
   \<and> repo_delete users_table svc_up [john] redis_sample ''3''
       = (Inl (DbError ''P2025''), [john], redis_sample)
   \<and> table_create [john] (john\<lparr>id_str := ''2''\<rparr>) = Inl (DbError ''P2002'')
   \<and> repo_create users_table svc_up [john] redis_sample (john\<lparr>id_str := ''2''\<rparr>)
       = (Inl (DbError ''P2002''), [john], redis_sample)"
proof -
  have u: "prisma_update users_table [john] ''3'' change_email = Inl (DbError ''P2025'')"
    and f: "prisma_findUnique users_table [john] ''3'' = Inr None"
    and d: "prisma_delete users_table [john] ''3'' = Inl (DbError ''P2025'')"
    and c: "prisma_create users_table [john] (john\<lparr>id_str := ''2''\<rparr>) = Inl (DbError ''P2002'')"
    by (simp_all add: users_table_def table_update_def table_findUnique_def table_delete_def
        table_create_def john_def)
  have t: "prisma_update users_table = table_update" "prisma_findUnique users_table = table_findUnique"
    "prisma_delete users_table = table_delete" "prisma_create users_table = table_create"
    by (simp_all add: users_table_def)
  note T1 = failed_mutation_leaves_cache [where um = users_table and db = "[john]"
      and i = "''3''" and udata = change_email and e = "DbError ''P2025''"
      and svc = svc_up and r = redis_sample and cdata = "john\<lparr>id_str := ''2''\<rparr>"]
  note T2 = failed_mutation_leaves_cache [where um = users_table and db = "[john]"
      and i = "''3''" and udata = change_email and e = "DbError ''P2002''"
      and svc = svc_up and r = redis_sample and cdata = "john\<lparr>id_str := ''2''\<rparr>"]
  have 1: "repo_update users_table svc_up [john] redis_sample ''3'' change_email
       = (Inl (DbError ''P2025''), [john], redis_sample)"
    using u f T1 by simp
  have 2: "repo_delete users_table svc_up [john] redis_sample ''3''
       = (Inl (DbError ''P2025''), [john], redis_sample)"
    using d f T1 by simp
  have 3: "repo_create users_table svc_up [john] redis_sample (john\<lparr>id_str := ''2''\<rparr>)
       = (Inl (DbError ''P2002''), [john], redis_sample)"
    using c T2 by simp
  show ?thesis
    using 1 2 3 u f d c unfolding t by simp
qed

end
